theory Spec2Isabelle
  imports Main "HOL-Library.Word"
begin

section \<open>Data model of \<^verbatim>\<open>pkg/cache/inmemory.go\<close>\<close>

text \<open>
  The byte counts of the cache (\<^verbatim>\<open>maxSizeBytes\<close>, \<^verbatim>\<open>maxItemSizeBytes\<close>, \<^verbatim>\<open>curSize\<close>)
  are \<^verbatim>\<open>uint64\<close> in the source and 64-bit words here: \<open>+\<close> and \<open>-\<close> wrap around.
  Instants of \<^verbatim>\<open>time.Time\<close> and values of \<^verbatim>\<open>time.Duration\<close> are integers (nanoseconds);
  \<^verbatim>\<open>t.Add(d)\<close> is \<open>t + d\<close> and \<^verbatim>\<open>t.After(u)\<close> is \<open>u < t\<close>. The reading of \<^verbatim>\<open>time.Now()\<close>
  is an argument of the operation that reads the clock.
\<close>

type_synonym u64 = "64 word"
type_synonym byte = "8 word"
type_synonym time = int
type_synonym duration = int

subsection \<open>Byte slices and the store of their backing arrays\<close>

text \<open>
  A Go \<^verbatim>\<open>[]byte\<close> is a header (backing array, offset into it, length) and shares its
  backing array with every other slice cut from it. The backing arrays live in a store
  addressed by natural numbers; address 0 is never allocated and stands for \<^verbatim>\<open>nil\<close>.
  \<^verbatim>\<open>len\<close> is the header's length field; \<^verbatim>\<open>uint64(len(s))\<close> reads it as an unsigned word.
\<close>

record slice =
  s_base :: nat
  s_off :: nat
  s_len :: u64

record heap =
  arrays :: "nat \<Rightarrow> byte list"
  nxt :: nat

definition nil_slice :: slice where
  "nil_slice = \<lparr>s_base = 0, s_off = 0, s_len = 0\<rparr>"

definition slice_bytes :: "heap \<Rightarrow> slice \<Rightarrow> byte list" where
  "slice_bytes h s = take (unat (s_len s)) (drop (s_off s) (arrays h (s_base s)))"

definition valid_slice :: "heap \<Rightarrow> slice \<Rightarrow> bool" where
  "valid_slice h s \<longleftrightarrow>
     0 < s_base s \<and> s_base s < nxt h \<and>
     s_off s + unat (s_len s) \<le> length (arrays h (s_base s))"

text \<open>\<^verbatim>\<open>make([]byte, n)\<close>: a fresh backing array of \<open>n\<close> zero bytes.\<close>

definition make_bytes :: "heap \<Rightarrow> u64 \<Rightarrow> slice \<times> heap" where
  "make_bytes h n =
     (\<lparr>s_base = nxt h, s_off = 0, s_len = n\<rparr>,
      h\<lparr>arrays := (arrays h)(nxt h := replicate (unat n) 0), nxt := Suc (nxt h)\<rparr>)"

text \<open>\<^verbatim>\<open>copy(dst, src)\<close>: the first \<open>min (len dst) (len src)\<close> bytes of \<open>src\<close> overwrite
  the start of \<open>dst\<close>.\<close>

definition copy_slice :: "heap \<Rightarrow> slice \<Rightarrow> slice \<Rightarrow> heap" where
  "copy_slice h dst src =
     (let n = min (unat (s_len dst)) (unat (s_len src));
          bs = take n (slice_bytes h src);
          arr = arrays h (s_base dst)
      in h\<lparr>arrays := (arrays h)(s_base dst :=
              take (s_off dst) arr @ bs @ drop (s_off dst + length bs) arr)\<rparr>)"

text \<open>A caller's assignment \<^verbatim>\<open>s[i] = b\<close>; \<open>None\<close> is Go's index-out-of-range panic.\<close>

definition slice_write :: "heap \<Rightarrow> slice \<Rightarrow> nat \<Rightarrow> byte \<Rightarrow> heap option" where
  "slice_write h s i b =
     (if i < unat (s_len s)
      then Some (h\<lparr>arrays := (arrays h)(s_base s := (arrays h (s_base s))[s_off s + i := b])\<rparr>)
      else None)"

subsection \<open>The cache and its entries\<close>

record cacheDataWithTTLWrapper =
  data :: slice
  expiryTime :: time

text \<open>What the cache hands to its logger: level and message, with the logged fields
  \<^verbatim>\<open>maxItemSizeBytes\<close>, \<^verbatim>\<open>maxSizeBytes\<close>, \<^verbatim>\<open>curSize\<close>, \<^verbatim>\<open>itemSize\<close>.\<close>

datatype log_event =
    Info_created u64 u64
  | Debug_item_too_big u64 u64 u64 u64
  | Error_resetting u64 u64 u64 u64

text \<open>
  \<^verbatim>\<open>InMemoryCache\<close>. The mutex is left out: the model is sequential, one operation at a
  time, as the lock makes them. The Prometheus counters count events (natural numbers);
  the gauges are integers. \<open>lru\<close> is the recency-ordered map, most recently used first.
\<close>

record InMemoryCache =
  logger :: "log_event list"
  maxSizeBytes :: u64
  maxItemSizeBytes :: u64
  name :: string
  curSize :: u64
  lru :: "(string \<times> cacheDataWithTTLWrapper) list"
  evicted :: nat
  requests :: nat
  hits :: nat
  hitsExpired :: nat
  added :: nat
  current :: int
  currentSize :: int
  totalCurrentSize :: int
  overflow :: nat

record InMemoryCacheConfig =
  MaxSize :: u64
  MaxItemSize :: u64

datatype error = MaxItemSizeTooBig u64 u64

section \<open>The recency-ordered map\<close>

text \<open>
  Modelled from the spec: the recency-ordered mapping from key to entry
  (\<^verbatim>\<open>simplelru.LRU\<close> of \<^verbatim>\<open>hashicorp/golang-lru\<close>, which is not among the sources). It is
  a list of key/entry pairs, the most recently touched pair first and the least
  recently touched last. The cache creates it with the count limit \<^verbatim>\<open>maxInt\<close> and does
  all eviction itself, so the list has no count limit. Removing a key, removing the
  oldest pair and purging hand every removed pair to the eviction callback, which the
  cache sets to \<^verbatim>\<open>onEvict\<close>: the functions below return the removed pairs, and the
  cache-level functions of the next section run the callback on them.
\<close>

type_synonym ('k, 'v) simplelru = "('k \<times> 'v) list"

text \<open>Modelled from the spec: \<^verbatim>\<open>Get\<close>, the lookup. A key that is found becomes the most
  recently used.\<close>

definition LRU_Get :: "'k \<Rightarrow> ('k, 'v) simplelru \<Rightarrow> ('k, 'v) simplelru \<times> 'v option" where
  "LRU_Get key l =
     (case map_of l key of
        None \<Rightarrow> (l, None)
      | Some v \<Rightarrow> ((key, v) # filter (\<lambda>p. fst p \<noteq> key) l, Some v))"

text \<open>Modelled from the spec: \<^verbatim>\<open>Add\<close>, the insert, as the most recently used entry.\<close>

definition LRU_Add :: "'k \<Rightarrow> 'v \<Rightarrow> ('k, 'v) simplelru \<Rightarrow> ('k, 'v) simplelru" where
  "LRU_Add key v l = (key, v) # filter (\<lambda>p. fst p \<noteq> key) l"

text \<open>Modelled from the spec: \<^verbatim>\<open>Remove\<close>, the removal of one key; the order of the other
  entries stays.\<close>

definition LRU_Remove :: "'k \<Rightarrow> ('k, 'v) simplelru \<Rightarrow> ('k, 'v) simplelru \<times> 'v option" where
  "LRU_Remove key l =
     (case map_of l key of
        None \<Rightarrow> (l, None)
      | Some v \<Rightarrow> (filter (\<lambda>p. fst p \<noteq> key) l, Some v))"

text \<open>Modelled from the spec: \<^verbatim>\<open>RemoveOldest\<close>, the removal of the least recently used
  entry; on an empty map it reports that there was nothing to remove.\<close>

definition LRU_RemoveOldest :: "('k, 'v) simplelru \<Rightarrow> ('k, 'v) simplelru \<times> ('k \<times> 'v) option" where
  "LRU_RemoveOldest l = (if l = [] then (l, None) else (butlast l, Some (last l)))"

text \<open>Modelled from the spec: \<^verbatim>\<open>Purge\<close>, the removal of all entries. Every entry goes
  through the callback; \<open>onEvict\<close> only counts and subtracts, so the order in which the
  entries reach it does not show in the result.\<close>

definition LRU_Purge :: "('k, 'v) simplelru \<Rightarrow> ('k, 'v) simplelru \<times> ('k \<times> 'v) list" where
  "LRU_Purge l = ([], l)"

section \<open>The operations of the cache\<close>

text \<open>\<^verbatim>\<open>NewInMemoryCacheWithConfig\<close>: the configuration check, the zeroed metrics, the
  empty map and the log line. The map's constructor fails only for a count limit that
  is not positive, and \<^verbatim>\<open>maxInt\<close> is positive.\<close>

definition NewInMemoryCacheWithConfig ::
  "string \<Rightarrow> InMemoryCacheConfig \<Rightarrow> error + InMemoryCache" where
  "NewInMemoryCacheWithConfig nm config =
     (if MaxItemSize config > MaxSize config
      then Inl (MaxItemSizeTooBig (MaxItemSize config) (MaxSize config))
      else Inr \<lparr>logger = [Info_created (MaxItemSize config) (MaxSize config)],
                maxSizeBytes = MaxSize config,
                maxItemSizeBytes = MaxItemSize config,
                name = nm,
                curSize = 0,
                lru = [],
                evicted = 0, requests = 0, hits = 0, hitsExpired = 0, added = 0,
                current = 0, currentSize = 0, totalCurrentSize = 0,
                overflow = 0\<rparr>)"

definition onEvict :: "string \<Rightarrow> cacheDataWithTTLWrapper \<Rightarrow> InMemoryCache \<Rightarrow> InMemoryCache" where
  "onEvict key val c =
     (let keySize = (of_nat (length key) :: u64);
          entrySize = s_len (data val)
      in c\<lparr>evicted := evicted c + 1,
            current := current c - 1,
            currentSize := currentSize c - uint entrySize,
            totalCurrentSize := totalCurrentSize c - uint (keySize + entrySize),
            curSize := curSize c - entrySize\<rparr>)"

text \<open>The calls \<^verbatim>\<open>c.lru.Get\<close>, \<^verbatim>\<open>c.lru.Add\<close>, \<^verbatim>\<open>c.lru.Remove\<close>, \<^verbatim>\<open>c.lru.RemoveOldest\<close> and
  \<^verbatim>\<open>c.lru.Purge\<close>, with \<open>onEvict\<close> run on what the map removed.\<close>

definition c_lru_Get :: "InMemoryCache \<Rightarrow> string \<Rightarrow> InMemoryCache \<times> cacheDataWithTTLWrapper option" where
  "c_lru_Get c key = (case LRU_Get key (lru c) of (l, r) \<Rightarrow> (c\<lparr>lru := l\<rparr>, r))"

definition c_lru_Add :: "InMemoryCache \<Rightarrow> string \<Rightarrow> cacheDataWithTTLWrapper \<Rightarrow> InMemoryCache" where
  "c_lru_Add c key v = c\<lparr>lru := LRU_Add key v (lru c)\<rparr>"

definition c_lru_Remove :: "InMemoryCache \<Rightarrow> string \<Rightarrow> InMemoryCache \<times> bool" where
  "c_lru_Remove c key =
     (case LRU_Remove key (lru c) of
        (l, None) \<Rightarrow> (c\<lparr>lru := l\<rparr>, False)
      | (l, Some v) \<Rightarrow> (onEvict key v (c\<lparr>lru := l\<rparr>), True))"

definition c_lru_RemoveOldest :: "InMemoryCache \<Rightarrow> InMemoryCache \<times> bool" where
  "c_lru_RemoveOldest c =
     (case LRU_RemoveOldest (lru c) of
        (l, None) \<Rightarrow> (c\<lparr>lru := l\<rparr>, False)
      | (l, Some (k, v)) \<Rightarrow> (onEvict k v (c\<lparr>lru := l\<rparr>), True))"

definition c_lru_Purge :: "InMemoryCache \<Rightarrow> InMemoryCache" where
  "c_lru_Purge c =
     (case LRU_Purge (lru c) of
        (l, removed) \<Rightarrow> fold (\<lambda>(k, v). onEvict k v) removed (c\<lparr>lru := l\<rparr>))"

definition get :: "InMemoryCache \<Rightarrow> string \<Rightarrow> time \<Rightarrow> InMemoryCache \<times> slice \<times> bool" where
  "get c key now =
     (let c0 = c\<lparr>requests := requests c + 1\<rparr> in
      case c_lru_Get c0 key of
        (c1, None) \<Rightarrow> (c1, nil_slice, False)
      | (c1, Some v) \<Rightarrow>
          if now > expiryTime v
          then (let c2 = c1\<lparr>hitsExpired := hitsExpired c1 + 1\<rparr>
                in (fst (c_lru_Remove c2 key), nil_slice, False))
          else (c1\<lparr>hits := hits c1 + 1\<rparr>, data v, True))"

definition reset :: "InMemoryCache \<Rightarrow> InMemoryCache" where
  "reset c = (c_lru_Purge c)\<lparr>current := 0, currentSize := 0, totalCurrentSize := 0, curSize := 0\<rparr>"

text \<open>The loop of \<^verbatim>\<open>ensureFits\<close>. Nothing in its text bounds the number of rounds, so it
  is a partial function: \<open>None\<close> is a loop that never ends.\<close>

partial_function (option) ensureFits_loop :: "InMemoryCache \<Rightarrow> u64 \<Rightarrow> InMemoryCache option" where
  "ensureFits_loop c sz =
     (if curSize c + sz > maxSizeBytes c
      then (case c_lru_RemoveOldest c of
              (c1, ok) \<Rightarrow>
                if \<not> ok
                then ensureFits_loop
                       (reset (c1\<lparr>logger := logger c1 @
                          [Error_resetting (maxItemSizeBytes c1) (maxSizeBytes c1) (curSize c1) sz]\<rparr>))
                       sz
                else ensureFits_loop c1 sz)
      else Some c)"

declare ensureFits_loop.simps [code]

definition ensureFits :: "InMemoryCache \<Rightarrow> u64 \<Rightarrow> (InMemoryCache \<times> bool) option" where
  "ensureFits c sz =
     (if sz > maxItemSizeBytes c
      then Some (c\<lparr>logger := logger c @
                   [Debug_item_too_big (maxItemSizeBytes c) (maxSizeBytes c) (curSize c) sz]\<rparr>,
                 False)
      else (case ensureFits_loop c sz of
              None \<Rightarrow> None
            | Some c1 \<Rightarrow> Some (c1, True)))"

text \<open>\<^verbatim>\<open>set\<close>; the name \<open>set\<close> is taken in HOL. The result is \<open>None\<close> when the loop of
  \<open>ensureFits\<close> does not end.\<close>

definition set_c ::
  "InMemoryCache \<Rightarrow> heap \<Rightarrow> string \<Rightarrow> slice \<Rightarrow> duration \<Rightarrow> time \<Rightarrow> (InMemoryCache \<times> heap) option" where
  "set_c c h key val ttl now =
     (let sz = s_len val;
          keySize = (of_nat (length key) :: u64)
      in case c_lru_Get c key of
           (c1, Some _) \<Rightarrow> Some (c1, h)
         | (c1, None) \<Rightarrow>
             (case ensureFits c1 sz of
                None \<Rightarrow> None
              | Some (c2, False) \<Rightarrow> Some (c2\<lparr>overflow := overflow c2 + 1\<rparr>, h)
              | Some (c2, True) \<Rightarrow>
                  (let (v, h1) = make_bytes h (s_len val);
                       h2 = copy_slice h1 v val;
                       c3 = c_lru_Add c2 key \<lparr>data = v, expiryTime = now + ttl\<rparr>
                   in Some (c3\<lparr>added := added c3 + 1,
                                currentSize := currentSize c3 + uint sz,
                                totalCurrentSize := totalCurrentSize c3 + uint (keySize + sz),
                                current := current c3 + 1,
                                curSize := curSize c3 + sz\<rparr>,
                            h2))))"

text \<open>\<^verbatim>\<open>Store\<close> ranges over a Go map, whose iteration order is not fixed: the argument is
  the map's pairs in the order of the iteration, each with the reading of the clock in
  its \<open>set\<close>.\<close>

fun Store ::
  "InMemoryCache \<Rightarrow> heap \<Rightarrow> ((string \<times> slice) \<times> time) list \<Rightarrow> duration \<Rightarrow> (InMemoryCache \<times> heap) option" where
  "Store c h [] ttl = Some (c, h)"
| "Store c h (((key, val), now) # rest) ttl =
     (case set_c c h key val ttl now of
        None \<Rightarrow> None
      | Some (c1, h1) \<Rightarrow> Store c1 h1 rest ttl)"

text \<open>\<^verbatim>\<open>Fetch\<close>: each key comes with the reading of the clock in its \<open>get\<close>.\<close>

fun Fetch_loop ::
  "InMemoryCache \<Rightarrow> (string \<rightharpoonup> slice) \<Rightarrow> (string \<times> time) list \<Rightarrow> InMemoryCache \<times> (string \<rightharpoonup> slice)" where
  "Fetch_loop c results [] = (c, results)"
| "Fetch_loop c results ((key, now) # rest) =
     (case get c key now of
        (c1, b, ok) \<Rightarrow> Fetch_loop c1 (if ok then results(key \<mapsto> b) else results) rest)"

definition Fetch :: "InMemoryCache \<Rightarrow> (string \<times> time) list \<Rightarrow> InMemoryCache \<times> (string \<rightharpoonup> slice)" where
  "Fetch c keys = Fetch_loop c Map.empty keys"

definition Name :: "InMemoryCache \<Rightarrow> string" where
  "Name c = name c"

section \<open>Sequences of operations, and the notions the properties are stated with\<close>

datatype op =
    Op_set string slice duration time
  | Op_get string time
  | Op_Store "((string \<times> slice) \<times> time) list" duration
  | Op_Fetch "(string \<times> time) list"
  | Op_reset

fun apply_op :: "InMemoryCache \<times> heap \<Rightarrow> op \<Rightarrow> (InMemoryCache \<times> heap) option" where
  "apply_op (c, h) (Op_set key val ttl now) = set_c c h key val ttl now"
| "apply_op (c, h) (Op_get key now) = Some (fst (get c key now), h)"
| "apply_op (c, h) (Op_Store kvs ttl) = Store c h kvs ttl"
| "apply_op (c, h) (Op_Fetch keys) = Some (fst (Fetch c keys), h)"
| "apply_op (c, h) Op_reset = Some (reset c, h)"

fun run_ops :: "InMemoryCache \<times> heap \<Rightarrow> op list \<Rightarrow> (InMemoryCache \<times> heap) option" where
  "run_ops s [] = Some s"
| "run_ops s (x # xs) = (case apply_op s x of None \<Rightarrow> None | Some s1 \<Rightarrow> run_ops s1 xs)"

text \<open>The sum of \<^verbatim>\<open>len(data)\<close> over the entries of the map, as a natural number.\<close>

definition stored_bytes :: "(string \<times> cacheDataWithTTLWrapper) list \<Rightarrow> nat" where
  "stored_bytes l = sum_list (map (\<lambda>p. unat (s_len (data (snd p)))) l)"

definition keys_of :: "InMemoryCache \<Rightarrow> string list" where
  "keys_of c = map fst (lru c)"

text \<open>The byte-accounting invariant: \<open>curSize\<close> is the sum of the stored lengths.\<close>

definition accounted :: "InMemoryCache \<Rightarrow> bool" where
  "accounted c \<longleftrightarrow> unat (curSize c) = stored_bytes (lru c)"

text \<open>The state in which the map keeps its \<open>n\<close> most recently used entries and the
  others have been evicted, the oldest first, each through \<open>onEvict\<close>.\<close>

definition evicted_down_to :: "nat \<Rightarrow> InMemoryCache \<Rightarrow> InMemoryCache" where
  "evicted_down_to n c =
     (fold (\<lambda>(k, v). onEvict k v) (rev (drop n (lru c))) c)\<lparr>lru := take n (lru c)\<rparr>"

text \<open>The invariant of the reachable states: the keys of the map are distinct, the bytes
  are accounted for and within the budget, no entry is larger than the item limit, and
  the two limits are as the constructor checks them. The last conjunct keeps
  \<open>curSize + size\<close> of \<^verbatim>\<open>ensureFits\<close> below \<open>2 ^ 64\<close>: it holds of every budget under
  \<open>2 ^ 63\<close> bytes.\<close>

definition cache_inv :: "InMemoryCache \<Rightarrow> bool" where
  "cache_inv c \<longleftrightarrow>
     distinct (map fst (lru c)) \<and>
     accounted c \<and>
     curSize c \<le> maxSizeBytes c \<and>
     list_all (\<lambda>p. s_len (data (snd p)) \<le> maxItemSizeBytes c) (lru c) \<and>
     maxItemSizeBytes c \<le> maxSizeBytes c \<and>
     unat (maxSizeBytes c) + unat (maxItemSizeBytes c) < 2 ^ 64"

text \<open>The number of times the log shows the reset branch of \<^verbatim>\<open>ensureFits\<close>: the branch
  logs at level error before it resets, and nothing else logs at that level.\<close>

fun is_resetting :: "log_event \<Rightarrow> bool" where
  "is_resetting (Error_resetting _ _ _ _) = True"
| "is_resetting _ = False"

definition resets_logged :: "log_event list \<Rightarrow> nat" where
  "resets_logged l = length (filter is_resetting l)"

text \<open>Lines 245 to 253 of \<^verbatim>\<open>set\<close>: the state once the copy of the value is in the map.\<close>

definition inserted ::
  "InMemoryCache \<Rightarrow> heap \<Rightarrow> string \<Rightarrow> slice \<Rightarrow> duration \<Rightarrow> time \<Rightarrow> InMemoryCache \<times> heap" where
  "inserted c2 h key val ttl now =
     (let sz = s_len val;
          keySize = (of_nat (length key) :: u64);
          (v, h1) = make_bytes h (s_len val);
          h2 = copy_slice h1 v val;
          c3 = c_lru_Add c2 key \<lparr>data = v, expiryTime = now + ttl\<rparr>
      in (c3\<lparr>added := added c3 + 1,
               currentSize := currentSize c3 + uint sz,
               totalCurrentSize := totalCurrentSize c3 + uint (keySize + sz),
               current := current c3 + 1,
               curSize := curSize c3 + sz\<rparr>,
          h2))"

text \<open>A \<^verbatim>\<open>set\<close> at clock reading \<open>t0\<close> followed at once by a \<^verbatim>\<open>get\<close> of the same key at
  clock reading \<open>t1\<close>: the bytes of the slice the \<^verbatim>\<open>get\<close> returns, and its flag.\<close>

definition set_then_get ::
  "InMemoryCache \<Rightarrow> heap \<Rightarrow> string \<Rightarrow> slice \<Rightarrow> duration \<Rightarrow> time \<Rightarrow> time \<Rightarrow> (byte list \<times> bool) option" where
  "set_then_get c h key val ttl t0 t1 =
     (case set_c c h key val ttl t0 of
        None \<Rightarrow> None
      | Some (c1, h1) \<Rightarrow> (case get c1 key t1 of (c2, b, ok) \<Rightarrow> Some (slice_bytes h1 b, ok)))"

text \<open>The bytes the cache holds under a key, read through the entry's slice; and the
  bytes it holds after a caller has read the key with \<^verbatim>\<open>get\<close> and assigned to element
  \<open>i\<close> of the slice that \<^verbatim>\<open>get\<close> returned.\<close>

definition stored_value :: "InMemoryCache \<Rightarrow> heap \<Rightarrow> string \<Rightarrow> byte list option" where
  "stored_value c h key = map_option (\<lambda>e. slice_bytes h (data e)) (map_of (lru c) key)"

definition value_after_write_through_get ::
  "InMemoryCache \<Rightarrow> heap \<Rightarrow> string \<Rightarrow> time \<Rightarrow> nat \<Rightarrow> byte \<Rightarrow> byte list option" where
  "value_after_write_through_get c h key now i b =
     (case get c key now of
        (c1, s, ok) \<Rightarrow>
          (case slice_write h s i b of
             None \<Rightarrow> None
           | Some h1 \<Rightarrow> stored_value c1 h1 key))"

text \<open>What a run remembers of an entry: key, length and expiry time. And the total
  length of the values of a batch handed to \<^verbatim>\<open>Store\<close>.\<close>

definition summary :: "(string \<times> cacheDataWithTTLWrapper) list \<Rightarrow> (string \<times> u64 \<times> time) list" where
  "summary l = map (\<lambda>p. (fst p, s_len (data (snd p)), expiryTime (snd p))) l"

definition kv_lens :: "((string \<times> slice) \<times> time) list \<Rightarrow> nat" where
  "kv_lens kvs = sum_list (map (\<lambda>kv. unat (s_len (snd (fst kv)))) kvs)"

subsection \<open>A small cache to run the operations on\<close>

text \<open>A caller's store with four values, and the cache with a budget of 10 bytes and
  an item limit of 5 after \<^verbatim>\<open>set("a", 4 bytes)\<close> and \<^verbatim>\<open>set("b", 5 bytes)\<close>, both at
  clock reading 5 with a time-to-live of 95.\<close>

definition ex_heap0 :: heap where
  "ex_heap0 =
     \<lparr>arrays = (\<lambda>_. [])(1 := [1, 2, 3, 4], 2 := [5, 6, 7, 8, 9], 3 := [7, 7, 7],
                          4 := [1, 1, 1, 1, 1, 1]),
      nxt = 5\<rparr>"

definition ex_val_a :: slice where
  "ex_val_a = \<lparr>s_base = 1, s_off = 0, s_len = 4\<rparr>"

definition ex_val_b :: slice where
  "ex_val_b = \<lparr>s_base = 2, s_off = 0, s_len = 5\<rparr>"

definition ex_val :: slice where
  "ex_val = \<lparr>s_base = 3, s_off = 0, s_len = 3\<rparr>"

definition ex_big :: slice where
  "ex_big = \<lparr>s_base = 4, s_off = 0, s_len = 6\<rparr>"

definition ex_config :: InMemoryCacheConfig where
  "ex_config = \<lparr>MaxSize = 10, MaxItemSize = 5\<rparr>"

definition ex_new :: InMemoryCache where
  "ex_new =
     \<lparr>logger = [Info_created 5 10], maxSizeBytes = 10, maxItemSizeBytes = 5, name = ''c'',
      curSize = 0, lru = [],
      evicted = 0, requests = 0, hits = 0, hitsExpired = 0, added = 0,
      current = 0, currentSize = 0, totalCurrentSize = 0, overflow = 0\<rparr>"

definition ex_entry :: "nat \<Rightarrow> u64 \<Rightarrow> time \<Rightarrow> cacheDataWithTTLWrapper" where
  "ex_entry a n t = \<lparr>data = \<lparr>s_base = a, s_off = 0, s_len = n\<rparr>, expiryTime = t\<rparr>"

definition ex_cache :: InMemoryCache where
  "ex_cache =
     \<lparr>logger = [Info_created 5 10], maxSizeBytes = 10, maxItemSizeBytes = 5, name = ''c'',
      curSize = 9,
      lru = [(''b'', ex_entry 6 5 100), (''a'', ex_entry 5 4 100)],
      evicted = 0, requests = 0, hits = 0, hitsExpired = 0, added = 2,
      current = 2, currentSize = 9, totalCurrentSize = 11, overflow = 0\<rparr>"

definition ex_heap :: heap where
  "ex_heap =
     \<lparr>arrays = (\<lambda>_. [])(1 := [1, 2, 3, 4], 2 := [5, 6, 7, 8, 9], 3 := [7, 7, 7],
                          4 := [1, 1, 1, 1, 1, 1], 5 := [1, 2, 3, 4], 6 := [5, 6, 7, 8, 9]),
      nxt = 7\<rparr>"

text \<open>A run from the new cache through every kind of operation.\<close>

definition ex_ops :: "op list" where
  "ex_ops =
     [Op_set ''a'' ex_val_a 95 5,
      Op_set ''b'' ex_val_b 95 5,
      Op_get ''a'' 6,
      Op_Store [((''c'', ex_val), 7), ((''d'', ex_big), 7)] 95,
      Op_Fetch [(''a'', 8), (''zz'', 8), (''c'', 200)],
      Op_set ''a'' ex_val 1 9,
      Op_reset,
      Op_set ''e'' ex_val_b 0 10]"

text \<open>A budget for exactly three items of three bytes, and three such items.\<close>

definition ex_config9 :: InMemoryCacheConfig where
  "ex_config9 = \<lparr>MaxSize = 9, MaxItemSize = 3\<rparr>"

definition ex_new9 :: InMemoryCache where
  "ex_new9 =
     \<lparr>logger = [Info_created 3 9], maxSizeBytes = 9, maxItemSizeBytes = 3, name = ''c'',
      curSize = 0, lru = [],
      evicted = 0, requests = 0, hits = 0, hitsExpired = 0, added = 0,
      current = 0, currentSize = 0, totalCurrentSize = 0, overflow = 0\<rparr>"

definition ex_kvs :: "((string \<times> slice) \<times> time) list" where
  "ex_kvs = [((''a'', ex_val), 5), ((''b'', ex_val), 5), ((''c'', ex_val), 6)]"

section \<open>Eviction by \<^verbatim>\<open>onEvict\<close>\<close>

lemma onEvict_fields [simp]:
  "lru (onEvict k v c) = lru c"
  "curSize (onEvict k v c) = curSize c - s_len (data v)"
  "maxSizeBytes (onEvict k v c) = maxSizeBytes c"
  "maxItemSizeBytes (onEvict k v c) = maxItemSizeBytes c"
  "logger (onEvict k v c) = logger c"
  "evicted (onEvict k v c) = Suc (evicted c)"
  "requests (onEvict k v c) = requests c"
  "hits (onEvict k v c) = hits c"
  "hitsExpired (onEvict k v c) = hitsExpired c"
  "added (onEvict k v c) = added c"
  "overflow (onEvict k v c) = overflow c"
  "name (onEvict k v c) = name c"
  by (simp_all add: onEvict_def Let_def)

lemma onEvict_lru_update: "onEvict k v (c\<lparr>lru := l\<rparr>) = (onEvict k v c)\<lparr>lru := l\<rparr>"
  by (simp add: onEvict_def Let_def)

lemma fold_onEvict_lru_update:
  "fold (\<lambda>(k, v). onEvict k v) xs (c\<lparr>lru := l\<rparr>) = (fold (\<lambda>(k, v). onEvict k v) xs c)\<lparr>lru := l\<rparr>"
  by (induction xs arbitrary: c) (auto simp: onEvict_lru_update)

lemma fold_onEvict_fields [simp]:
  "lru (fold (\<lambda>(k, v). onEvict k v) xs c) = lru c"
  "maxSizeBytes (fold (\<lambda>(k, v). onEvict k v) xs c) = maxSizeBytes c"
  "maxItemSizeBytes (fold (\<lambda>(k, v). onEvict k v) xs c) = maxItemSizeBytes c"
  "logger (fold (\<lambda>(k, v). onEvict k v) xs c) = logger c"
  "evicted (fold (\<lambda>(k, v). onEvict k v) xs c) = evicted c + length xs"
  "requests (fold (\<lambda>(k, v). onEvict k v) xs c) = requests c"
  "hits (fold (\<lambda>(k, v). onEvict k v) xs c) = hits c"
  "hitsExpired (fold (\<lambda>(k, v). onEvict k v) xs c) = hitsExpired c"
  "added (fold (\<lambda>(k, v). onEvict k v) xs c) = added c"
  "overflow (fold (\<lambda>(k, v). onEvict k v) xs c) = overflow c"
  "name (fold (\<lambda>(k, v). onEvict k v) xs c) = name c"
  by (induction xs arbitrary: c; simp add: case_prod_beta)+

lemma stored_bytes_simps [simp]:
  "stored_bytes [] = 0"
  "stored_bytes (p # l) = unat (s_len (data (snd p))) + stored_bytes l"
  "stored_bytes (l @ l') = stored_bytes l + stored_bytes l'"
  by (simp_all add: stored_bytes_def)

lemma stored_bytes_butlast:
  "l \<noteq> [] \<Longrightarrow> stored_bytes l = stored_bytes (butlast l) + unat (s_len (data (snd (last l))))"
  using stored_bytes_simps(3)[of "butlast l" "[last l]"] by simp

lemma stored_bytes_take_le: "stored_bytes (take n l) \<le> stored_bytes l"
  using stored_bytes_simps(3)[of "take n l" "drop n l"] by simp

lemma evicted_down_to_fields [simp]:
  "lru (evicted_down_to n c) = take n (lru c)"
  "maxSizeBytes (evicted_down_to n c) = maxSizeBytes c"
  "maxItemSizeBytes (evicted_down_to n c) = maxItemSizeBytes c"
  "logger (evicted_down_to n c) = logger c"
  "evicted (evicted_down_to n c) = evicted c + (length (lru c) - n)"
  "requests (evicted_down_to n c) = requests c"
  "hits (evicted_down_to n c) = hits c"
  "hitsExpired (evicted_down_to n c) = hitsExpired c"
  "added (evicted_down_to n c) = added c"
  "overflow (evicted_down_to n c) = overflow c"
  "name (evicted_down_to n c) = name c"
  by (simp_all add: evicted_down_to_def)

lemma evicted_down_to_all: "evicted_down_to (length (lru c)) c = c"
  by (simp add: evicted_down_to_def)

lemma evicted_down_to_step:
  assumes "lru c \<noteq> []" "n < length (lru c)"
  shows "evicted_down_to n (onEvict (fst (last (lru c))) (snd (last (lru c))) (c\<lparr>lru := butlast (lru c)\<rparr>))
         = evicted_down_to n c"
proof -
  have d: "drop n (lru c) = drop n (butlast (lru c)) @ [last (lru c)]"
    using assms by (metis append_butlast_last_id drop_append length_butlast
        diff_is_0_eq drop0 Suc_diff_1 length_greater_0_conv less_Suc_eq_le)
  have t: "take n (butlast (lru c)) = take n (lru c)"
    using assms by (simp add: take_butlast)
  show ?thesis
    by (simp add: evicted_down_to_def d t onEvict_lru_update fold_onEvict_lru_update case_prod_beta)
qed

lemma accounted_evict_last:
  assumes "accounted c" "lru c \<noteq> []"
  shows "accounted (onEvict (fst (last (lru c))) (snd (last (lru c))) (c\<lparr>lru := butlast (lru c)\<rparr>))"
proof -
  let ?s = "s_len (data (snd (last (lru c))))"
  have eq: "unat (curSize c) = stored_bytes (butlast (lru c)) + unat ?s"
    using assms stored_bytes_butlast by (simp add: accounted_def)
  then have "?s \<le> curSize c" by (simp add: word_le_nat_alt)
  then have "unat (curSize c - ?s) = unat (curSize c) - unat ?s" by (rule unat_sub)
  with eq show ?thesis by (simp add: accounted_def)
qed

lemma accounted_evicted_down_to:
  assumes "accounted c"
  shows "accounted (evicted_down_to n c)"
  using assms
proof (induction "length (lru c)" arbitrary: c)
  case 0
  then show ?case by (simp add: evicted_down_to_def accounted_def)
next
  case (Suc k)
  then have ne: "lru c \<noteq> []" by auto
  let ?c1 = "onEvict (fst (last (lru c))) (snd (last (lru c))) (c\<lparr>lru := butlast (lru c)\<rparr>)"
  show ?case
  proof (cases "n < length (lru c)")
    case True
    have "length (lru ?c1) = k" using Suc.hyps(2) by simp
    then have "accounted (evicted_down_to n ?c1)"
      using Suc.hyps(1)[of ?c1] accounted_evict_last[OF Suc.prems ne] by simp
    then show ?thesis using evicted_down_to_step[OF ne True] by simp
  next
    case False
    then show ?thesis using Suc.prems by (simp add: evicted_down_to_def)
  qed
qed

lemma curSize_evicted_down_to_le:
  assumes "accounted c"
  shows "curSize (evicted_down_to n c) \<le> curSize c"
proof -
  have "unat (curSize (evicted_down_to n c)) = stored_bytes (take n (lru c))"
    using accounted_evicted_down_to[OF assms, of n] by (simp add: accounted_def)
  then show ?thesis using assms stored_bytes_take_le[of n "lru c"]
    by (simp add: accounted_def word_le_nat_alt)
qed

section \<open>The loop of \<^verbatim>\<open>ensureFits\<close>\<close>

lemma RemoveOldest_nonempty:
  "lru c \<noteq> [] \<Longrightarrow> c_lru_RemoveOldest c =
     (onEvict (fst (last (lru c))) (snd (last (lru c))) (c\<lparr>lru := butlast (lru c)\<rparr>), True)"
  by (simp add: c_lru_RemoveOldest_def LRU_RemoveOldest_def split: prod.split)

lemma RemoveOldest_empty:
  "lru c = [] \<Longrightarrow> c_lru_RemoveOldest c = (c, False)"
  by (simp add: c_lru_RemoveOldest_def LRU_RemoveOldest_def)

text \<open>In a state whose bytes are accounted for, and for an item no larger than the
  budget, the loop ends after evicting some of the oldest entries: it keeps the \<open>n\<close>
  most recent ones, where \<open>n\<close> is the largest count at which the item fits.\<close>

lemma ensureFits_loop_result:
  assumes "accounted c" "sz \<le> maxSizeBytes c"
  shows "\<exists>n\<le>length (lru c).
           ensureFits_loop c sz = Some (evicted_down_to n c) \<and>
           \<not> curSize (evicted_down_to n c) + sz > maxSizeBytes c \<and>
           (\<forall>m. n < m \<and> m \<le> length (lru c) \<longrightarrow>
                curSize (evicted_down_to m c) + sz > maxSizeBytes c)"
  using assms
proof (induction "length (lru c)" arbitrary: c)
  case 0
  then have e: "lru c = []" by simp
  with 0 have "curSize c = 0" by (simp add: accounted_def unat_eq_0)
  with 0 have "\<not> curSize c + sz > maxSizeBytes c" by (simp add: not_less)
  then have "ensureFits_loop c sz = Some c" by (subst ensureFits_loop.simps) simp
  with e \<open>\<not> curSize c + sz > maxSizeBytes c\<close> show ?case
    by (simp add: evicted_down_to_def)
next
  case (Suc k)
  then have ne: "lru c \<noteq> []" by auto
  let ?c1 = "onEvict (fst (last (lru c))) (snd (last (lru c))) (c\<lparr>lru := butlast (lru c)\<rparr>)"
  show ?case
  proof (cases "curSize c + sz > maxSizeBytes c")
    case False
    then have "ensureFits_loop c sz = Some c" by (subst ensureFits_loop.simps) simp
    with False show ?thesis
      by (intro exI[of _ "length (lru c)"]) (auto simp: evicted_down_to_all)
  next
    case True
    have len1: "length (lru ?c1) = k" using Suc.hyps(2) by simp
    have acc1: "accounted ?c1" using Suc.prems(1) ne by (rule accounted_evict_last)
    have "sz \<le> maxSizeBytes ?c1" using Suc.prems(2) by simp
    from Suc.hyps(1)[OF len1[symmetric] acc1 this]
    obtain n where n: "n \<le> length (lru ?c1)"
      "ensureFits_loop ?c1 sz = Some (evicted_down_to n ?c1)"
      "\<not> curSize (evicted_down_to n ?c1) + sz > maxSizeBytes ?c1"
      "\<forall>m. n < m \<and> m \<le> length (lru ?c1) \<longrightarrow> curSize (evicted_down_to m ?c1) + sz > maxSizeBytes ?c1"
      by blast
    have step: "\<And>m. m < length (lru c) \<Longrightarrow> evicted_down_to m ?c1 = evicted_down_to m c"
      using ne by (rule evicted_down_to_step)
    have nlt: "n < length (lru c)" using n(1) len1 Suc.hyps(2) by simp
    have loop: "ensureFits_loop c sz = Some (evicted_down_to n c)"
      using True ne n(2) step[OF nlt]
      by (subst ensureFits_loop.simps) (simp add: RemoveOldest_nonempty)
    have stop: "\<not> curSize (evicted_down_to n c) + sz > maxSizeBytes c"
      using n(3) step[OF nlt] by simp
    have rest: "curSize (evicted_down_to m c) + sz > maxSizeBytes c"
      if "n < m" "m \<le> length (lru c)" for m
    proof (cases "m = length (lru c)")
      case True
      then show ?thesis using \<open>curSize c + sz > maxSizeBytes c\<close> by (simp add: evicted_down_to_all)
    next
      case False
      with that have "m < length (lru c)" by simp
      moreover from this have "m \<le> length (lru ?c1)" using len1 Suc.hyps(2) by simp
      ultimately show ?thesis using n(4) that(1) step by auto
    qed
    from nlt loop stop rest show ?thesis
      by (intro exI[of _ n]) (simp add: less_imp_le)
  qed
qed

text \<open>The bound on the item is needed. In an empty cache, for an item larger than the
  budget, every round of the loop finds nothing to evict, resets the cache and tests
  the same sizes again: the loop never ends. The constructor's check, with the item
  limit tested first in \<^verbatim>\<open>ensureFits\<close>, keeps such an item from the loop.\<close>

lemma reset_fixed:
  assumes "lru c = []" "curSize c = 0"
  shows "lru (reset (c\<lparr>logger := l\<rparr>)) = []" "curSize (reset (c\<lparr>logger := l\<rparr>)) = 0"
    "maxSizeBytes (reset (c\<lparr>logger := l\<rparr>)) = maxSizeBytes c"
  using assms by (simp_all add: reset_def c_lru_Purge_def LRU_Purge_def)

lemma ensureFits_loop_never_ends:
  assumes "lru c = []" and "curSize c = 0" and "sz > maxSizeBytes c"
  shows "ensureFits_loop c sz = None"
proof (rule ccontr)
  assume "ensureFits_loop c sz \<noteq> None"
  then obtain y where y: "ensureFits_loop c sz = Some y" by auto
  have "\<not> (lru c = [] \<and> curSize c = 0 \<and> sz > maxSizeBytes c)"
  proof (rule ensureFits_loop.raw_induct
      [where P = "\<lambda>c sz y. \<not> (lru c = [] \<and> curSize c = 0 \<and> sz > maxSizeBytes c)", OF _ y],
      goal_cases)
    case (1 f c sz y)
    show ?case
    proof
      assume a: "lru c = [] \<and> curSize c = 0 \<and> sz > maxSizeBytes c"
      then have "f (reset (c\<lparr>logger := logger c @
                  [Error_resetting (maxItemSizeBytes c) (maxSizeBytes c) (curSize c) sz]\<rparr>)) sz = Some y"
        using 1(2) by (simp add: RemoveOldest_empty)
      from 1(1)[OF this] a show False
        by (simp add: reset_fixed)
    qed
  qed
  with assms show False by simp
qed

text \<open>
  C7. In a cache whose item limit is at most its budget, and in any state whose
  \<open>curSize\<close> is the sum of the stored lengths, \<^verbatim>\<open>ensureFits\<close> returns (its loop ends),
  it reports a fit exactly for the items within the item limit, and its reset branch
  is not taken: the log shows no reset that it did not show before.
\<close>

theorem ensureFits_terminates_without_reset:
  assumes "maxItemSizeBytes c \<le> maxSizeBytes c" and "accounted c"
  shows "\<exists>c' fits. ensureFits c sz = Some (c', fits) \<and>
           (fits \<longleftrightarrow> sz \<le> maxItemSizeBytes c) \<and>
           resets_logged (logger c') = resets_logged (logger c)"
proof (cases "sz > maxItemSizeBytes c")
  case True
  then show ?thesis by (simp add: ensureFits_def resets_logged_def)
next
  case False
  with assms(1) have "sz \<le> maxSizeBytes c" by simp
  from ensureFits_loop_result[OF assms(2) this]
  obtain n where "ensureFits_loop c sz = Some (evicted_down_to n c)" by blast
  with False show ?thesis by (simp add: ensureFits_def)
qed

theorem ensureFits_terminates_without_reset_witness:
  "maxItemSizeBytes ex_cache \<le> maxSizeBytes ex_cache \<and> accounted ex_cache \<and>
   (\<exists>c' fits. ensureFits ex_cache 3 = Some (c', fits) \<and>
      (fits \<longleftrightarrow> 3 \<le> maxItemSizeBytes ex_cache) \<and>
      resets_logged (logger c') = resets_logged (logger ex_cache))"
proof -
  have h1: "maxItemSizeBytes ex_cache \<le> maxSizeBytes ex_cache"
    by (simp add: ex_cache_def)
  have h2: "accounted ex_cache"
    by (simp add: ex_cache_def accounted_def ex_entry_def)
  from ensureFits_terminates_without_reset[OF h1 h2, of 3] h1 h2 show ?thesis by simp
qed

section \<open>Lookups, \<^verbatim>\<open>get\<close> and \<^verbatim>\<open>set\<close>, case by case\<close>

lemma c_lru_Get_absent: "map_of (lru c) key = None \<Longrightarrow> c_lru_Get c key = (c, None)"
  by (simp add: c_lru_Get_def LRU_Get_def)

lemma c_lru_Get_present:
  "map_of (lru c) key = Some v \<Longrightarrow>
   c_lru_Get c key = (c\<lparr>lru := (key, v) # filter (\<lambda>p. fst p \<noteq> key) (lru c)\<rparr>, Some v)"
  by (simp add: c_lru_Get_def LRU_Get_def)

lemma map_of_filter_other:
  "k \<noteq> key \<Longrightarrow> map_of (filter (\<lambda>p. fst p \<noteq> key) l) k = map_of l k"
  by (induction l) auto

lemma map_of_promoted:
  "map_of l key = Some v \<Longrightarrow> map_of ((key, v) # filter (\<lambda>p. fst p \<noteq> key) l) = map_of l"
  by (rule ext) (simp add: map_of_filter_other)

lemma set_promoted:
  "distinct (map fst l) \<Longrightarrow> map_of l key = Some v \<Longrightarrow>
   set ((key, v) # filter (\<lambda>p. fst p \<noteq> key) l) = set l"
  by (induction l) (auto dest: map_of_SomeD simp: rev_image_eqI)

lemma distinct_promoted:
  "distinct (map fst l) \<Longrightarrow> distinct (map fst ((key, v) # filter (\<lambda>p. fst p \<noteq> key) l))"
  by (auto simp: distinct_map_filter)

lemma set_c_present:
  "map_of (lru c) key = Some e \<Longrightarrow>
   set_c c h key val ttl now = Some (c\<lparr>lru := (key, e) # filter (\<lambda>p. fst p \<noteq> key) (lru c)\<rparr>, h)"
  by (simp add: set_c_def c_lru_Get_present)

lemma get_absent:
  "map_of (lru c) key = None \<Longrightarrow> get c key now = (c\<lparr>requests := requests c + 1\<rparr>, nil_slice, False)"
  by (simp add: get_def c_lru_Get_absent)

lemma get_hit:
  "map_of (lru c) key = Some e \<Longrightarrow> \<not> now > expiryTime e \<Longrightarrow>
   get c key now =
     (c\<lparr>requests := requests c + 1,
        lru := (key, e) # filter (\<lambda>p. fst p \<noteq> key) (lru c),
        hits := hits c + 1\<rparr>, data e, True)"
  by (simp add: get_def c_lru_Get_present)

lemma get_expired:
  "map_of (lru c) key = Some e \<Longrightarrow> now > expiryTime e \<Longrightarrow>
   get c key now =
     (onEvict key e (c\<lparr>requests := requests c + 1,
                       hitsExpired := hitsExpired c + 1,
                       lru := filter (\<lambda>p. fst p \<noteq> key) (lru c)\<rparr>), nil_slice, False)"
  by (simp add: get_def c_lru_Get_present c_lru_Remove_def LRU_Remove_def)

lemma inserted_fields [simp]:
  "lru (fst (inserted c h key val ttl now)) =
     (key, \<lparr>data = \<lparr>s_base = nxt h, s_off = 0, s_len = s_len val\<rparr>, expiryTime = now + ttl\<rparr>)
       # filter (\<lambda>p. fst p \<noteq> key) (lru c)"
  "curSize (fst (inserted c h key val ttl now)) = curSize c + s_len val"
  "maxSizeBytes (fst (inserted c h key val ttl now)) = maxSizeBytes c"
  "maxItemSizeBytes (fst (inserted c h key val ttl now)) = maxItemSizeBytes c"
  "logger (fst (inserted c h key val ttl now)) = logger c"
  "evicted (fst (inserted c h key val ttl now)) = evicted c"
  "requests (fst (inserted c h key val ttl now)) = requests c"
  "hits (fst (inserted c h key val ttl now)) = hits c"
  "hitsExpired (fst (inserted c h key val ttl now)) = hitsExpired c"
  "added (fst (inserted c h key val ttl now)) = added c + 1"
  "overflow (fst (inserted c h key val ttl now)) = overflow c"
  "name (fst (inserted c h key val ttl now)) = name c"
  by (simp_all add: inserted_def Let_def make_bytes_def c_lru_Add_def LRU_Add_def)

lemma inserted_heap:
  "nxt (snd (inserted c h key val ttl now)) = Suc (nxt h)"
  "a \<noteq> nxt h \<Longrightarrow> arrays (snd (inserted c h key val ttl now)) a = arrays h a"
  "s_base val \<noteq> nxt h \<Longrightarrow> s_off val + unat (s_len val) \<le> length (arrays h (s_base val)) \<Longrightarrow>
     arrays (snd (inserted c h key val ttl now)) (nxt h) = slice_bytes h val"
  by (simp_all add: inserted_def Let_def make_bytes_def copy_slice_def slice_bytes_def)

lemma set_c_absent_fits:
  assumes "map_of (lru c) key = None" "accounted c"
    "s_len val \<le> maxItemSizeBytes c" "maxItemSizeBytes c \<le> maxSizeBytes c"
  shows "\<exists>n\<le>length (lru c).
           set_c c h key val ttl now = Some (inserted (evicted_down_to n c) h key val ttl now) \<and>
           \<not> curSize (evicted_down_to n c) + s_len val > maxSizeBytes c \<and>
           (\<forall>m. n < m \<and> m \<le> length (lru c) \<longrightarrow>
                curSize (evicted_down_to m c) + s_len val > maxSizeBytes c)"
proof -
  from assms(3,4) have "s_len val \<le> maxSizeBytes c" by simp
  from ensureFits_loop_result[OF assms(2) this]
  obtain n where n: "n \<le> length (lru c)"
    "ensureFits_loop c (s_len val) = Some (evicted_down_to n c)"
    "\<not> curSize (evicted_down_to n c) + s_len val > maxSizeBytes c"
    "\<forall>m. n < m \<and> m \<le> length (lru c) \<longrightarrow> curSize (evicted_down_to m c) + s_len val > maxSizeBytes c"
    by blast
  have "set_c c h key val ttl now = Some (inserted (evicted_down_to n c) h key val ttl now)"
    using assms(1,3) n(2)
    by (simp add: set_c_def c_lru_Get_absent ensureFits_def inserted_def Let_def not_less[symmetric]
          split: prod.split)
  with n show ?thesis by blast
qed

lemma set_c_absent_oversized:
  assumes "map_of (lru c) key = None" and "s_len val > maxItemSizeBytes c"
  shows "set_c c h key val ttl now =
           Some (c\<lparr>logger := logger c @
                     [Debug_item_too_big (maxItemSizeBytes c) (maxSizeBytes c) (curSize c) (s_len val)],
                   overflow := overflow c + 1\<rparr>, h)"
  using assms by (simp add: set_c_def c_lru_Get_absent ensureFits_def)

section \<open>The properties of \<^verbatim>\<open>set\<close> on a present key and on an oversized value\<close>

text \<open>
  C3. When the key is already in the map, \<^verbatim>\<open>set\<close> returns without storing: every field
  of the cache other than the recency order is as before (byte count, counters and
  gauges), the map from keys to entries is the same, so the key still has its original
  value and expiry time, and the store of byte arrays is untouched. The entries are
  the same set, so none is added, evicted or resized.
\<close>

theorem set_present_keeps_entry:
  assumes "map_of (lru c) key = Some e" and "distinct (keys_of c)"
  shows "\<exists>c'. set_c c h key val ttl now = Some (c', h) \<and>
           c'\<lparr>lru := lru c\<rparr> = c \<and>
           map_of (lru c') = map_of (lru c) \<and>
           set (lru c') = set (lru c) \<and>
           distinct (keys_of c')"
proof -
  let ?l = "(key, e) # filter (\<lambda>p. fst p \<noteq> key) (lru c)"
  have d: "distinct (map fst (lru c))" using assms(2) by (simp add: keys_of_def)
  have 1: "set_c c h key val ttl now = Some (c\<lparr>lru := ?l\<rparr>, h)"
    using assms(1) by (rule set_c_present)
  have 2: "map_of ?l = map_of (lru c)" using assms(1) by (rule map_of_promoted)
  have 3: "set ?l = set (lru c)" using d assms(1) by (rule set_promoted)
  have 4: "distinct (map fst ?l)" using d by (rule distinct_promoted)
  show ?thesis
    unfolding 1 keys_of_def using 2 3 4 by (intro exI[of _ "c\<lparr>lru := ?l\<rparr>"]) simp
qed

theorem set_present_keeps_entry_witness:
  "map_of (lru ex_cache) ''a'' = Some (ex_entry 5 4 100) \<and> distinct (keys_of ex_cache) \<and>
   (\<exists>c'. set_c ex_cache ex_heap ''a'' ex_val 50 7 = Some (c', ex_heap) \<and>
      c'\<lparr>lru := lru ex_cache\<rparr> = ex_cache \<and>
      map_of (lru c') = map_of (lru ex_cache) \<and>
      set (lru c') = set (lru ex_cache) \<and>
      distinct (keys_of c'))"
proof -
  have h1: "map_of (lru ex_cache) ''a'' = Some (ex_entry 5 4 100)"
    by (simp add: ex_cache_def)
  have h2: "distinct (keys_of ex_cache)"
    by (simp add: ex_cache_def keys_of_def)
  from set_present_keeps_entry[OF h1 h2, of ex_heap ex_val 50 7] h1 h2 show ?thesis by blast
qed

text \<open>
  C6. When the key is not in the map and the value is longer than \<^verbatim>\<open>maxItemSizeBytes\<close>,
  \<^verbatim>\<open>set\<close> changes two things only: the overflow counter goes up by one, and the log
  gains the debug line of \<^verbatim>\<open>ensureFits\<close>. The map, its order, \<open>curSize\<close>, every other
  counter and gauge, and the store of byte arrays are as before.
\<close>

theorem set_oversized_rejected:
  assumes "key \<notin> set (keys_of c)" and "s_len val > maxItemSizeBytes c"
  shows "set_c c h key val ttl now =
           Some (c\<lparr>logger := logger c @
                     [Debug_item_too_big (maxItemSizeBytes c) (maxSizeBytes c) (curSize c) (s_len val)],
                   overflow := overflow c + 1\<rparr>, h)"
proof -
  from assms(1) have "map_of (lru c) key = None"
    by (simp add: keys_of_def map_of_eq_None_iff)
  then show ?thesis using assms(2) by (rule set_c_absent_oversized)
qed

theorem set_oversized_rejected_witness:
  "''z'' \<notin> set (keys_of ex_cache) \<and> s_len ex_big > maxItemSizeBytes ex_cache \<and>
   set_c ex_cache ex_heap ''z'' ex_big 50 7 =
     Some (ex_cache\<lparr>logger := logger ex_cache @
              [Debug_item_too_big (maxItemSizeBytes ex_cache) (maxSizeBytes ex_cache)
                 (curSize ex_cache) (s_len ex_big)],
            overflow := overflow ex_cache + 1\<rparr>, ex_heap)"
proof -
  have h1: "''z'' \<notin> set (keys_of ex_cache)"
    by (simp add: ex_cache_def keys_of_def)
  have h2: "s_len ex_big > maxItemSizeBytes ex_cache"
    by (simp add: ex_cache_def ex_big_def)
  from set_oversized_rejected[OF h1 h2, of ex_heap 50 7] h1 h2 show ?thesis by blast
qed

section \<open>Expiry on access\<close>

lemma stored_bytes_filter:
  "distinct (map fst l) \<Longrightarrow> map_of l key = Some e \<Longrightarrow>
   stored_bytes l = stored_bytes (filter (\<lambda>p. fst p \<noteq> key) l) + unat (s_len (data e))"
proof (induction l)
  case Nil
  then show ?case by simp
next
  case (Cons p l)
  show ?case
  proof (cases "fst p = key")
    case True
    with Cons.prems have "snd p = e" by (cases p) simp
    moreover have "filter (\<lambda>q. fst q \<noteq> key) l = l"
    proof -
      from True Cons.prems(1) have "key \<notin> fst ` set l" by simp
      then have "\<forall>q\<in>set l. fst q \<noteq> key" by (metis imageI)
      then show ?thesis by (simp add: filter_id_conv)
    qed
    ultimately show ?thesis using True by simp
  next
    case False
    with Cons show ?thesis by (cases p) simp
  qed
qed

lemma keys_absent: "key \<notin> set (keys_of c) \<Longrightarrow> map_of (lru c) key = None"
  by (simp add: keys_of_def map_of_eq_None_iff)

text \<open>
  C5. A \<^verbatim>\<open>get\<close> of a key that is in the map with an expiry time before the clock reading
  reports not-found (\<^verbatim>\<open>nil, false\<close>) and removes the entry: the key is gone from the map
  and the other entries keep their order, \<open>curSize\<close> goes down by the length of the
  entry's value, the eviction counter goes up by one, and the access is counted as a hit
  on expired data, not as a hit.
\<close>

theorem get_expired_removes:
  assumes "map_of (lru c) key = Some e" and "now > expiryTime e"
  shows "\<exists>c'. get c key now = (c', nil_slice, False) \<and>
           key \<notin> set (keys_of c') \<and>
           lru c' = filter (\<lambda>p. fst p \<noteq> key) (lru c) \<and>
           curSize c' = curSize c - s_len (data e) \<and>
           evicted c' = evicted c + 1 \<and>
           hitsExpired c' = hitsExpired c + 1 \<and>
           hits c' = hits c"
  using assms by (auto simp: get_expired keys_of_def)

theorem get_expired_removes_witness:
  "map_of (lru ex_cache) ''a'' = Some (ex_entry 5 4 100) \<and> 101 > expiryTime (ex_entry 5 4 100) \<and>
   (\<exists>c'. get ex_cache ''a'' 101 = (c', nil_slice, False) \<and>
      ''a'' \<notin> set (keys_of c') \<and>
      lru c' = filter (\<lambda>p. fst p \<noteq> ''a'') (lru ex_cache) \<and>
      curSize c' = curSize ex_cache - s_len (data (ex_entry 5 4 100)) \<and>
      evicted c' = evicted ex_cache + 1 \<and>
      hitsExpired c' = hitsExpired ex_cache + 1 \<and>
      hits c' = hits ex_cache)"
proof -
  have h1: "map_of (lru ex_cache) ''a'' = Some (ex_entry 5 4 100)"
    by (simp add: ex_cache_def)
  have h2: "101 > expiryTime (ex_entry 5 4 100)"
    by (simp add: ex_entry_def)
  from get_expired_removes[OF h1 h2] h1 h2 show ?thesis by blast
qed

text \<open>
  C4, as the code has it. In a state whose bytes are accounted for and whose item limit
  is at most its budget, let \<^verbatim>\<open>set\<close> store a new entry at clock reading \<open>t0\<close> with
  time-to-live \<open>ttl\<close>, and let a \<^verbatim>\<open>get\<close> of the key follow at clock reading \<open>t1\<close>. Up to
  and including \<open>t0 + ttl\<close> the \<^verbatim>\<open>get\<close> returns the bytes that were passed to \<^verbatim>\<open>set\<close>;
  after \<open>t0 + ttl\<close> it reports not-found. The comparison of \<^verbatim>\<open>get\<close> is strict
  (\<^verbatim>\<open>time.Now().After(v.expiryTime)\<close>), so with a time-to-live of zero the value is
  still returned while the clock reads \<open>t0\<close>.
\<close>

theorem set_then_get_ttl:
  assumes "key \<notin> set (keys_of c)" and "accounted c"
    and "maxItemSizeBytes c \<le> maxSizeBytes c" and "s_len val \<le> maxItemSizeBytes c"
    and "valid_slice h val"
  shows "(t1 \<le> t0 + ttl \<longrightarrow>
            set_then_get c h key val ttl t0 t1 = Some (slice_bytes h val, True)) \<and>
         (t1 > t0 + ttl \<longrightarrow>
            set_then_get c h key val ttl t0 t1 = Some ([], False))"
proof -
  from set_c_absent_fits[OF keys_absent[OF assms(1)] assms(2) assms(4) assms(3), of h ttl t0]
  obtain n where s: "set_c c h key val ttl t0 = Some (inserted (evicted_down_to n c) h key val ttl t0)"
    by blast
  let ?e = "\<lparr>data = \<lparr>s_base = nxt h, s_off = 0, s_len = s_len val\<rparr>, expiryTime = t0 + ttl\<rparr>"
  obtain c1 h1 where r: "inserted (evicted_down_to n c) h key val ttl t0 = (c1, h1)"
    by (cases "inserted (evicted_down_to n c) h key val ttl t0")
  have m: "map_of (lru c1) key = Some ?e"
    using inserted_fields(1)[of "evicted_down_to n c" h key val ttl t0] by (simp add: r)
  have v: "s_base val \<noteq> nxt h" "s_off val + unat (s_len val) \<le> length (arrays h (s_base val))"
    using assms(5) by (auto simp: valid_slice_def)
  have b: "slice_bytes h1 (data ?e) = slice_bytes h val"
    using inserted_heap(3)[OF v, of "evicted_down_to n c" key ttl t0]
    by (simp add: slice_bytes_def r)
  have hit: "set_then_get c h key val ttl t0 t1 = Some (slice_bytes h val, True)" if "t1 \<le> t0 + ttl"
  proof -
    from that have "\<not> t1 > expiryTime ?e" by simp
    from get_hit[OF m this] b show ?thesis
      by (simp add: set_then_get_def s r)
  qed
  have miss: "set_then_get c h key val ttl t0 t1 = Some ([], False)" if "t1 > t0 + ttl"
  proof -
    from that have "t1 > expiryTime ?e" by simp
    from get_expired[OF m this] show ?thesis
      by (simp add: set_then_get_def s r slice_bytes_def nil_slice_def)
  qed
  from hit miss show ?thesis by blast
qed

theorem set_then_get_ttl_witness:
  "''k'' \<notin> set (keys_of ex_cache) \<and> accounted ex_cache \<and>
   maxItemSizeBytes ex_cache \<le> maxSizeBytes ex_cache \<and> s_len ex_val \<le> maxItemSizeBytes ex_cache \<and>
   valid_slice ex_heap ex_val \<and> (20::int) \<le> 5 + 30 \<and> (40::int) > 5 + 30 \<and>
   set_then_get ex_cache ex_heap ''k'' ex_val 30 5 20 = Some (slice_bytes ex_heap ex_val, True) \<and>
   set_then_get ex_cache ex_heap ''k'' ex_val 30 5 40 = Some ([], False)"
proof -
  have h1: "''k'' \<notin> set (keys_of ex_cache)" by (simp add: ex_cache_def keys_of_def)
  have h2: "accounted ex_cache" by (simp add: ex_cache_def accounted_def ex_entry_def)
  have h3: "maxItemSizeBytes ex_cache \<le> maxSizeBytes ex_cache" by (simp add: ex_cache_def)
  have h4: "s_len ex_val \<le> maxItemSizeBytes ex_cache" by (simp add: ex_cache_def ex_val_def)
  have h5: "valid_slice ex_heap ex_val" by (simp add: valid_slice_def ex_heap_def ex_val_def)
  from set_then_get_ttl[OF h1 h2 h3 h4 h5, of 20 5 30] set_then_get_ttl[OF h1 h2 h3 h4 h5, of 40 5 30]
    h1 h2 h3 h4 h5
  show ?thesis by simp
qed

text \<open>C4 as stated, that a zero time-to-live makes the next access report not-found, fails
  when the clock has not advanced: \<^verbatim>\<open>set\<close> at reading 5 with time-to-live 0, then
  \<^verbatim>\<open>get\<close> at reading 5, returns the three bytes that were stored.\<close>

theorem zero_ttl_same_reading_counterexample:
  "set_then_get ex_cache ex_heap ''k'' ex_val 0 5 5 = Some ([7, 7, 7], True)"
  by (simp add: set_then_get_def set_c_def c_lru_Get_def LRU_Get_def ex_cache_def ex_val_def ex_heap_def
     ensureFits_def ensureFits_loop.simps c_lru_RemoveOldest_def LRU_RemoveOldest_def onEvict_def
     ex_entry_def make_bytes_def copy_slice_def slice_bytes_def c_lru_Add_def LRU_Add_def get_def Let_def)

section \<open>The example cache is a reachable state\<close>

text \<open>The definitions to unfold when an operation is run on given values, and the run
  that leads from the constructor to the example cache and its store.\<close>

lemmas eval_defs = set_c_def c_lru_Get_def LRU_Get_def
     ensureFits_def ensureFits_loop.simps c_lru_RemoveOldest_def LRU_RemoveOldest_def onEvict_def
     make_bytes_def copy_slice_def slice_bytes_def c_lru_Add_def LRU_Add_def get_def Let_def
     c_lru_Remove_def LRU_Remove_def

lemma ex_cache_reachable:
  "NewInMemoryCacheWithConfig ''c'' ex_config = Inr ex_new \<and>
   run_ops (ex_new, ex_heap0) [Op_set ''a'' ex_val_a 95 5, Op_set ''b'' ex_val_b 95 5]
     = Some (ex_cache, ex_heap)"
  by (simp add: NewInMemoryCacheWithConfig_def ex_config_def ex_new_def ex_heap0_def ex_val_a_def
        ex_val_b_def ex_cache_def ex_heap_def ex_entry_def eval_defs fun_upd_twist)

section \<open>\<^verbatim>\<open>set\<close> on a key that is present\<close>

text \<open>
  C9. A \<^verbatim>\<open>set\<close> on a key that is present stores nothing, but its existence check is
  the lookup that updates recency: the key's pair moves to the front of the order. A
  later eviction can therefore take another entry: in the example cache (order b, a,
  9 of 10 bytes used) a \<^verbatim>\<open>set\<close> of a new 3-byte item evicts a; after a \<^verbatim>\<open>set\<close> on the
  present key a, the same \<^verbatim>\<open>set\<close> evicts b.
\<close>

theorem set_present_promotes:
  assumes "map_of (lru c) key = Some e"
  shows "set_c c h key val ttl now =
           Some (c\<lparr>lru := (key, e) # filter (\<lambda>p. fst p \<noteq> key) (lru c)\<rparr>, h) \<and>
         map_option (keys_of \<circ> fst)
           (run_ops (ex_cache, ex_heap) [Op_set ''c'' ex_val 95 6]) = Some [''c'', ''b''] \<and>
         map_option (keys_of \<circ> fst)
           (run_ops (ex_cache, ex_heap) [Op_set ''a'' ex_val 95 6, Op_set ''c'' ex_val 95 6])
             = Some [''c'', ''a'']"
proof -
  have 1: "set_c c h key val ttl now =
           Some (c\<lparr>lru := (key, e) # filter (\<lambda>p. fst p \<noteq> key) (lru c)\<rparr>, h)"
    using assms by (rule set_c_present)
  have 2: "map_option (keys_of \<circ> fst)
           (run_ops (ex_cache, ex_heap) [Op_set ''c'' ex_val 95 6]) = Some [''c'', ''b'']"
    by (simp add: ex_cache_def ex_heap_def ex_val_def ex_entry_def keys_of_def eval_defs)
  have 3: "map_option (keys_of \<circ> fst)
           (run_ops (ex_cache, ex_heap) [Op_set ''a'' ex_val 95 6, Op_set ''c'' ex_val 95 6])
             = Some [''c'', ''a'']"
    by (simp add: ex_cache_def ex_heap_def ex_val_def ex_entry_def keys_of_def eval_defs)
  from 1 2 3 show ?thesis by blast
qed

theorem set_present_promotes_witness:
  "map_of (lru ex_cache) ''a'' = Some (ex_entry 5 4 100) \<and>
   set_c ex_cache ex_heap ''a'' ex_val 95 6 =
     Some (ex_cache\<lparr>lru := [(''a'', ex_entry 5 4 100), (''b'', ex_entry 6 5 100)]\<rparr>, ex_heap)"
proof -
  have h1: "map_of (lru ex_cache) ''a'' = Some (ex_entry 5 4 100)"
    by (simp add: ex_cache_def)
  have l: "(''a'', ex_entry 5 4 100) # filter (\<lambda>p. fst p \<noteq> ''a'') (lru ex_cache)
           = [(''a'', ex_entry 5 4 100), (''b'', ex_entry 6 5 100)]"
    by (simp add: ex_cache_def)
  from set_present_promotes[OF h1, of ex_heap ex_val 95 6] h1 show ?thesis
    unfolding l by blast
qed

lemma accounted_removed:
  assumes "accounted c" "distinct (map fst (lru c))" "map_of (lru c) key = Some e"
    "lru c' = filter (\<lambda>p. fst p \<noteq> key) (lru c)" "curSize c' = curSize c - s_len (data e)"
  shows "accounted c'"
proof -
  let ?s = "s_len (data e)"
  have eq: "unat (curSize c) = stored_bytes (lru c') + unat ?s"
    using assms(1) stored_bytes_filter[OF assms(2,3)] assms(4) by (simp add: accounted_def)
  then have "?s \<le> curSize c" by (simp add: word_le_nat_alt)
  then have "unat (curSize c - ?s) = unat (curSize c) - unat ?s" by (rule unat_sub)
  with eq assms(5) show ?thesis by (simp add: accounted_def)
qed

text \<open>
  C10. A \<^verbatim>\<open>set\<close> on a key whose entry is in the map but already expired stores nothing
  either: the map still holds the stale entry with its past expiry time, and the store
  of byte arrays is untouched. A \<^verbatim>\<open>get\<close> of the key then removes the entry and reports
  not-found, and after it a \<^verbatim>\<open>set\<close> under the key stores the new value with the new
  expiry time.
\<close>

theorem set_on_expired_is_noop:
  assumes "map_of (lru c) key = Some e" and "expiryTime e < now"
    and "distinct (keys_of c)" and "accounted c"
    and "maxItemSizeBytes c \<le> maxSizeBytes c" and "s_len val \<le> maxItemSizeBytes c"
  shows "\<exists>c1 c2 c3 h3.
           set_c c h key val ttl now = Some (c1, h) \<and>
           map_of (lru c1) = map_of (lru c) \<and>
           get c1 key now = (c2, nil_slice, False) \<and>
           key \<notin> set (keys_of c2) \<and>
           set_c c2 h key val ttl now = Some (c3, h3) \<and>
           map_of (lru c3) key =
             Some \<lparr>data = \<lparr>s_base = nxt h, s_off = 0, s_len = s_len val\<rparr>, expiryTime = now + ttl\<rparr>"
proof -
  let ?l = "(key, e) # filter (\<lambda>p. fst p \<noteq> key) (lru c)"
  let ?c1 = "c\<lparr>lru := ?l\<rparr>"
  have d: "distinct (map fst (lru c))" using assms(3) by (simp add: keys_of_def)
  have 1: "set_c c h key val ttl now = Some (?c1, h)" using assms(1) by (rule set_c_present)
  have 2: "map_of (lru ?c1) = map_of (lru c)" using map_of_promoted[OF assms(1)] by simp
  then have m1: "map_of (lru ?c1) key = Some e" using assms(1) by simp
  obtain c2 where 3: "get ?c1 key now = (c2, nil_slice, False)"
    and k2: "key \<notin> set (keys_of c2)"
    and l2: "lru c2 = filter (\<lambda>p. fst p \<noteq> key) (lru ?c1)"
    and s2: "curSize c2 = curSize ?c1 - s_len (data e)"
    and mx: "maxSizeBytes c2 = maxSizeBytes c" "maxItemSizeBytes c2 = maxItemSizeBytes c"
    using m1 assms(2) by (auto simp: get_expired keys_of_def)
  have "accounted ?c1"
    using assms(4) stored_bytes_filter[OF d assms(1)] by (simp add: accounted_def)
  moreover have "distinct (map fst (lru ?c1))" using distinct_promoted[OF d] by simp
  ultimately have a2: "accounted c2" using m1 l2 s2 by (rule accounted_removed)
  from set_c_absent_fits[OF keys_absent[OF k2] a2, of val h ttl now] assms(5,6) mx
  obtain n where 4: "set_c c2 h key val ttl now = Some (inserted (evicted_down_to n c2) h key val ttl now)"
    by auto
  obtain c3 h3 where r: "inserted (evicted_down_to n c2) h key val ttl now = (c3, h3)"
    by (cases "inserted (evicted_down_to n c2) h key val ttl now")
  have 5: "map_of (lru c3) key =
             Some \<lparr>data = \<lparr>s_base = nxt h, s_off = 0, s_len = s_len val\<rparr>, expiryTime = now + ttl\<rparr>"
    using inserted_fields(1)[of "evicted_down_to n c2" h key val ttl now] by (simp add: r)
  from 1 2 3 k2 4 5 r show ?thesis by (intro exI[of _ ?c1] exI[of _ c2] exI[of _ c3] exI[of _ h3]) simp
qed

theorem set_on_expired_is_noop_witness:
  "map_of (lru ex_cache) ''a'' = Some (ex_entry 5 4 100) \<and> expiryTime (ex_entry 5 4 100) < 200 \<and>
   distinct (keys_of ex_cache) \<and> accounted ex_cache \<and>
   maxItemSizeBytes ex_cache \<le> maxSizeBytes ex_cache \<and> s_len ex_val \<le> maxItemSizeBytes ex_cache \<and>
   (\<exists>c1 c2 c3 h3.
      set_c ex_cache ex_heap ''a'' ex_val 50 200 = Some (c1, ex_heap) \<and>
      map_of (lru c1) = map_of (lru ex_cache) \<and>
      get c1 ''a'' 200 = (c2, nil_slice, False) \<and>
      ''a'' \<notin> set (keys_of c2) \<and>
      set_c c2 ex_heap ''a'' ex_val 50 200 = Some (c3, h3) \<and>
      map_of (lru c3) ''a'' =
        Some \<lparr>data = \<lparr>s_base = nxt ex_heap, s_off = 0, s_len = s_len ex_val\<rparr>, expiryTime = 200 + 50\<rparr>)"
proof -
  have h1: "map_of (lru ex_cache) ''a'' = Some (ex_entry 5 4 100)" by (simp add: ex_cache_def)
  have h2: "expiryTime (ex_entry 5 4 100) < 200" by (simp add: ex_entry_def)
  have h3: "distinct (keys_of ex_cache)" by (simp add: ex_cache_def keys_of_def)
  have h4: "accounted ex_cache" by (simp add: ex_cache_def accounted_def ex_entry_def)
  have h5: "maxItemSizeBytes ex_cache \<le> maxSizeBytes ex_cache" by (simp add: ex_cache_def)
  have h6: "s_len ex_val \<le> maxItemSizeBytes ex_cache" by (simp add: ex_cache_def ex_val_def)
  from set_on_expired_is_noop[OF h1 h2 h3 h4 h5 h6, of ex_heap 50] h1 h2 h3 h4 h5 h6
  show ?thesis by blast
qed

section \<open>The invariant of the reachable states\<close>

lemma list_all_promoted:
  "list_all P l \<Longrightarrow> map_of l key = Some e \<Longrightarrow> list_all P ((key, e) # filter (\<lambda>p. fst p \<noteq> key) l)"
  by (auto simp: list_all_iff dest: map_of_SomeD)

lemma cache_inv_promoted:
  assumes "cache_inv c" "map_of (lru c) key = Some e"
    "lru c' = (key, e) # filter (\<lambda>p. fst p \<noteq> key) (lru c)"
    "curSize c' = curSize c" "maxSizeBytes c' = maxSizeBytes c" "maxItemSizeBytes c' = maxItemSizeBytes c"
  shows "cache_inv c'"
proof -
  have d: "distinct (map fst (lru c))" using assms(1) by (simp add: cache_inv_def)
  have "distinct (map fst (lru c'))" unfolding assms(3) using d by (rule distinct_promoted)
  moreover have "accounted c'"
    using assms(1,3,4) stored_bytes_filter[OF d assms(2)] by (simp add: cache_inv_def accounted_def)
  moreover have "list_all (\<lambda>p. s_len (data (snd p)) \<le> maxItemSizeBytes c') (lru c')"
    unfolding assms(3,6) using assms(1,2) by (intro list_all_promoted) (simp_all add: cache_inv_def)
  ultimately show ?thesis using assms(1,4,5,6) by (simp add: cache_inv_def)
qed

lemma cache_inv_removed:
  assumes "cache_inv c" "map_of (lru c) key = Some e"
    "lru c' = filter (\<lambda>p. fst p \<noteq> key) (lru c)"
    "curSize c' = curSize c - s_len (data e)"
    "maxSizeBytes c' = maxSizeBytes c" "maxItemSizeBytes c' = maxItemSizeBytes c"
  shows "cache_inv c'"
proof -
  have d: "distinct (map fst (lru c))" and a: "accounted c" using assms(1) by (simp_all add: cache_inv_def)
  have a': "accounted c'" using a d assms(2,3,4) by (rule accounted_removed)
  have "stored_bytes (lru c') \<le> stored_bytes (lru c)"
    using stored_bytes_filter[OF d assms(2)] assms(3) by simp
  then have "curSize c' \<le> curSize c" using a a' by (simp add: accounted_def word_le_nat_alt)
  moreover have "curSize c \<le> maxSizeBytes c" using assms(1) by (simp add: cache_inv_def)
  ultimately have "curSize c' \<le> maxSizeBytes c" by (rule order_trans)
  moreover have "distinct (map fst (lru c'))" unfolding assms(3) using d by (simp add: distinct_map_filter)
  moreover have "list_all (\<lambda>p. s_len (data (snd p)) \<le> maxItemSizeBytes c') (lru c')"
    unfolding assms(3,6) using assms(1) by (simp add: cache_inv_def list_all_iff)
  ultimately show ?thesis using assms(1,5,6) a' by (simp add: cache_inv_def)
qed

lemma cache_inv_evicted_down_to:
  assumes "cache_inv c"
  shows "cache_inv (evicted_down_to n c)"
proof -
  have a: "accounted c" using assms by (simp add: cache_inv_def)
  have "list_all (\<lambda>p. s_len (data (snd p)) \<le> maxItemSizeBytes c) (take n (lru c))"
    using assms by (auto simp: cache_inv_def list_all_iff dest: in_set_takeD)
  moreover have "curSize c \<le> maxSizeBytes c" using assms by (simp add: cache_inv_def)
  with curSize_evicted_down_to_le[OF a, of n]
  have "curSize (evicted_down_to n c) \<le> maxSizeBytes c" by (rule order_trans)
  ultimately show ?thesis
    using assms accounted_evicted_down_to[OF a, of n]
    by (simp add: cache_inv_def distinct_take take_map[symmetric])
qed

lemma cache_inv_inserted:
  assumes "cache_inv c" "key \<notin> fst ` set (lru c)" "s_len val \<le> maxItemSizeBytes c"
    "\<not> curSize c + s_len val > maxSizeBytes c"
  shows "cache_inv (fst (inserted c h key val ttl now))"
proof -
  let ?c' = "fst (inserted c h key val ttl now)"
  let ?e = "\<lparr>data = \<lparr>s_base = nxt h, s_off = 0, s_len = s_len val\<rparr>, expiryTime = now + ttl\<rparr>"
  have f: "filter (\<lambda>p. fst p \<noteq> key) (lru c) = lru c"
    using assms(2) by (auto simp: filter_id_conv)
  have l: "lru ?c' = (key, ?e) # lru c" by (simp add: f)
  have "unat (curSize c) \<le> unat (maxSizeBytes c)" "unat (s_len val) \<le> unat (maxItemSizeBytes c)"
    using assms(1,3) by (simp_all add: cache_inv_def word_le_nat_alt)
  moreover have "unat (maxSizeBytes c) + unat (maxItemSizeBytes c) < 2 ^ 64"
    using assms(1) by (simp add: cache_inv_def)
  ultimately have "unat (curSize c) + unat (s_len val) < 2 ^ LENGTH(64)" by simp
  then have u: "unat (curSize c + s_len val) = unat (curSize c) + unat (s_len val)"
    by (simp only: unat_add_lem)
  have "accounted ?c'"
    using assms(1) u by (simp add: accounted_def cache_inv_def l del: inserted_fields(1))
  moreover have "distinct (map fst (lru ?c'))"
    using assms(1,2) by (simp add: cache_inv_def l del: inserted_fields(1))
  moreover have "list_all (\<lambda>p. s_len (data (snd p)) \<le> maxItemSizeBytes ?c') (lru ?c')"
    using assms(1,3) by (simp add: cache_inv_def l del: inserted_fields(1))
  moreover have "curSize ?c' \<le> maxSizeBytes ?c'"
    using assms(4) by (simp add: not_less)
  ultimately show ?thesis using assms(1) by (simp add: cache_inv_def del: inserted_fields(1))
qed

lemma cache_inv_set_c:
  assumes "cache_inv c"
  shows "\<exists>c' h'. set_c c h key val ttl now = Some (c', h') \<and> cache_inv c'"
proof (cases "map_of (lru c) key")
  case (Some e)
  have "cache_inv (c\<lparr>lru := (key, e) # filter (\<lambda>p. fst p \<noteq> key) (lru c)\<rparr>)"
    using assms Some by (rule cache_inv_promoted) simp_all
  then show ?thesis using set_c_present[OF Some] by simp
next
  case None
  show ?thesis
  proof (cases "s_len val > maxItemSizeBytes c")
    case True
    from set_c_absent_oversized[OF None True, of h ttl now] assms show ?thesis
      by (simp add: cache_inv_def accounted_def)
  next
    case False
    have a: "accounted c" and m: "maxItemSizeBytes c \<le> maxSizeBytes c"
      using assms by (simp_all add: cache_inv_def)
    from False have le: "s_len val \<le> maxItemSizeBytes c" by simp
    from set_c_absent_fits[OF None a le m, of h ttl now]
    obtain n where n: "n \<le> length (lru c)"
      "set_c c h key val ttl now = Some (inserted (evicted_down_to n c) h key val ttl now)"
      "\<not> curSize (evicted_down_to n c) + s_len val > maxSizeBytes c"
      by blast
    have "key \<notin> fst ` set (lru (evicted_down_to n c))"
      using None by (auto simp: map_of_eq_None_iff dest: in_set_takeD)
    from cache_inv_inserted[OF cache_inv_evicted_down_to[OF assms] this, of val h ttl now] le n(3)
    have "cache_inv (fst (inserted (evicted_down_to n c) h key val ttl now))" by simp
    then show ?thesis using n(2) by (cases "inserted (evicted_down_to n c) h key val ttl now") simp
  qed
qed

lemma cache_inv_get:
  assumes "cache_inv c"
  shows "cache_inv (fst (get c key now))"
proof (cases "map_of (lru c) key")
  case None
  then show ?thesis using assms by (simp add: get_absent cache_inv_def accounted_def)
next
  case (Some e)
  show ?thesis
  proof (cases "now > expiryTime e")
    case True
    show ?thesis unfolding get_expired[OF Some True] fst_conv
      using assms Some by (rule cache_inv_removed) simp_all
  next
    case False
    show ?thesis unfolding get_hit[OF Some False] fst_conv
      using assms Some by (rule cache_inv_promoted) simp_all
  qed
qed

lemma cache_inv_reset:
  assumes "cache_inv c"
  shows "cache_inv (reset c)"
  using assms
  by (simp add: reset_def c_lru_Purge_def LRU_Purge_def cache_inv_def accounted_def
        fold_onEvict_lru_update)

lemma cache_inv_Store:
  assumes "cache_inv c"
  shows "\<exists>c' h'. Store c h kvs ttl = Some (c', h') \<and> cache_inv c'"
  using assms
proof (induction kvs arbitrary: c h)
  case Nil
  then show ?case by simp
next
  case (Cons x kvs)
  obtain key val now where x: "x = ((key, val), now)" by (cases x) auto
  from cache_inv_set_c[OF Cons.prems, of h key val ttl now]
  obtain c1 h1 where s: "set_c c h key val ttl now = Some (c1, h1)" "cache_inv c1" by blast
  from Cons.IH[OF s(2), of h1] s(1) x show ?case by simp
qed

lemma cache_inv_Fetch_loop:
  assumes "cache_inv c"
  shows "cache_inv (fst (Fetch_loop c results keys))"
  using assms
proof (induction keys arbitrary: c results)
  case Nil
  then show ?case by simp
next
  case (Cons x keys)
  obtain key now where x: "x = (key, now)" by (cases x)
  obtain c1 b ok where g: "get c key now = (c1, b, ok)" by (cases "get c key now")
  with cache_inv_get[OF Cons.prems, of key now] have "cache_inv c1" by simp
  from Cons.IH[OF this] g x show ?case by simp
qed

lemma cache_inv_apply_op:
  assumes "cache_inv (fst s)"
  shows "\<exists>s'. apply_op s x = Some s' \<and> cache_inv (fst s')"
proof -
  obtain c h where s: "s = (c, h)" by (cases s)
  with assms have i: "cache_inv c" by simp
  show ?thesis
  proof (cases x)
    case (Op_set key val ttl now)
    with cache_inv_set_c[OF i, of h key val ttl now] s show ?thesis by auto
  next
    case (Op_get key now)
    with cache_inv_get[OF i, of key now] s show ?thesis by simp
  next
    case (Op_Store kvs ttl)
    with cache_inv_Store[OF i, of h kvs ttl] s show ?thesis by auto
  next
    case (Op_Fetch keys)
    with cache_inv_Fetch_loop[OF i, of Map.empty keys] s show ?thesis by (simp add: Fetch_def)
  next
    case Op_reset
    with cache_inv_reset[OF i] s show ?thesis by simp
  qed
qed

lemma cache_inv_run_ops:
  assumes "cache_inv (fst s)"
  shows "\<exists>s'. run_ops s ops = Some s' \<and> cache_inv (fst s')"
  using assms
proof (induction ops arbitrary: s)
  case Nil
  then show ?case by simp
next
  case (Cons x ops)
  from cache_inv_apply_op[OF Cons.prems, of x]
  obtain s1 where "apply_op s x = Some s1" "cache_inv (fst s1)" by blast
  with Cons.IH[of s1] show ?case by simp
qed

text \<open>
  C1. From a cache that \<^verbatim>\<open>NewInMemoryCacheWithConfig\<close> has constructed (so the item
  limit is at most the budget), every sequence of \<^verbatim>\<open>set\<close>, \<^verbatim>\<open>get\<close>, \<^verbatim>\<open>Store\<close>,
  \<^verbatim>\<open>Fetch\<close> and \<^verbatim>\<open>reset\<close> runs to its end, and in the state after it \<open>curSize\<close> is
  the sum of \<^verbatim>\<open>len(data)\<close> over the entries of the map and is at most \<^verbatim>\<open>maxSizeBytes\<close>.
  As the sequence is arbitrary, the state after each of its operations is covered. The
  second hypothesis keeps the \<^verbatim>\<open>uint64\<close> sum \<open>curSize + size\<close> of \<^verbatim>\<open>ensureFits\<close> from
  wrapping around; it holds of every budget below \<open>2 ^ 63\<close> bytes, and a state that
  breaks it would hold more bytes than a 64-bit address space has.
\<close>

theorem curSize_is_stored_sum_within_budget:
  assumes "NewInMemoryCacheWithConfig nm config = Inr c0"
    and "unat (MaxSize config) + unat (MaxItemSize config) < 2 ^ 64"
  shows "\<exists>c h'. run_ops (c0, h) ops = Some (c, h') \<and>
           unat (curSize c) = stored_bytes (lru c) \<and>
           curSize c \<le> maxSizeBytes c"
proof -
  from assms have "cache_inv c0"
    by (auto simp: NewInMemoryCacheWithConfig_def cache_inv_def accounted_def not_less
          split: if_splits)
  from cache_inv_run_ops[of "(c0, h)" ops] this
  obtain s' where "run_ops (c0, h) ops = Some s'" "cache_inv (fst s')" by auto
  then show ?thesis by (cases s') (auto simp: cache_inv_def accounted_def)
qed

theorem curSize_is_stored_sum_within_budget_witness:
  "NewInMemoryCacheWithConfig ''c'' ex_config = Inr ex_new \<and>
   unat (MaxSize ex_config) + unat (MaxItemSize ex_config) < 2 ^ 64 \<and>
   (\<exists>c h'. run_ops (ex_new, ex_heap0) ex_ops = Some (c, h') \<and>
      unat (curSize c) = stored_bytes (lru c) \<and>
      curSize c \<le> maxSizeBytes c)"
proof -
  have h1: "NewInMemoryCacheWithConfig ''c'' ex_config = Inr ex_new"
    by (simp add: NewInMemoryCacheWithConfig_def ex_config_def ex_new_def)
  have h2: "unat (MaxSize ex_config) + unat (MaxItemSize ex_config) < 2 ^ 64"
    by (simp add: ex_config_def)
  from curSize_is_stored_sum_within_budget[OF h1 h2, of ex_heap0 ex_ops] h1 h2
  show ?thesis by blast
qed

section \<open>Copies and shared backing arrays\<close>

lemma slice_bytes_write:
  assumes "i < unat (s_len s)" "s_off s + unat (s_len s) \<le> length (arrays h (s_base s))"
  shows "slice_bytes (h\<lparr>arrays := (arrays h)(s_base s := (arrays h (s_base s))[s_off s + i := b])\<rparr>) s
         = (slice_bytes h s)[i := b]"
  using assms by (simp add: slice_bytes_def drop_update_swap take_update_swap)

text \<open>C8 as stated, that assigning to the slice returned by \<^verbatim>\<open>get\<close> never alters the
  stored data, fails: in the example cache the key a holds the bytes 1, 2, 3, 4, and after
  \<^verbatim>\<open>b, _ := get("a"); b[0] = 99\<close> it holds 99, 2, 3, 4.\<close>

theorem get_returns_stored_slice_counterexample:
  "stored_value ex_cache ex_heap ''a'' = Some [1, 2, 3, 4] \<and>
   value_after_write_through_get ex_cache ex_heap ''a'' 6 0 99 = Some [99, 2, 3, 4]"
  by (simp add: stored_value_def value_after_write_through_get_def slice_write_def
        ex_cache_def ex_heap_def ex_entry_def eval_defs)

text \<open>
  C8, as the code has it. \<^verbatim>\<open>set\<close> stores a private copy: the new entry's slice is a
  fresh backing array holding the bytes of the value, and an assignment through any
  slice the caller held before the call, the buffer passed to \<^verbatim>\<open>set\<close> included, leaves
  the stored bytes as they are. \<^verbatim>\<open>get\<close> returns the entry's own slice (\<^verbatim>\<open>v.data\<close>), which
  shares the entry's backing array: an assignment to element \<open>i\<close> of the returned slice
  changes byte \<open>i\<close> of the stored value.
\<close>

theorem set_copies_get_shares:
  assumes "key \<notin> set (keys_of c)" and "accounted c"
    and "maxItemSizeBytes c \<le> maxSizeBytes c" and "s_len val \<le> maxItemSizeBytes c"
    and "valid_slice h val" and "s_base s < nxt h"
  shows "(\<exists>c1 h1. set_c c h key val ttl now = Some (c1, h1) \<and>
            stored_value c1 h1 key = Some (slice_bytes h val) \<and>
            (\<forall>h2. slice_write h1 s i b = Some h2 \<longrightarrow>
                  stored_value c1 h2 key = Some (slice_bytes h val))) \<and>
         (\<forall>k e. map_of (lru c) k = Some e \<and> \<not> now > expiryTime e \<longrightarrow>
            (\<exists>c'. get c k now = (c', data e, True) \<and> map_of (lru c') k = Some e \<and>
               (\<forall>h2. valid_slice h (data e) \<and> slice_write h (data e) i b = Some h2 \<longrightarrow>
                  stored_value c' h2 k = Some ((slice_bytes h (data e))[i := b]))))"
proof -
  from set_c_absent_fits[OF keys_absent[OF assms(1)] assms(2) assms(4) assms(3), of h ttl now]
  obtain n where st: "set_c c h key val ttl now = Some (inserted (evicted_down_to n c) h key val ttl now)"
    by blast
  let ?e = "\<lparr>data = \<lparr>s_base = nxt h, s_off = 0, s_len = s_len val\<rparr>, expiryTime = now + ttl\<rparr>"
  obtain c1 h1 where r: "inserted (evicted_down_to n c) h key val ttl now = (c1, h1)"
    by (cases "inserted (evicted_down_to n c) h key val ttl now")
  have m: "map_of (lru c1) key = Some ?e"
    using inserted_fields(1)[of "evicted_down_to n c" h key val ttl now] by (simp add: r)
  have v: "s_base val \<noteq> nxt h" "s_off val + unat (s_len val) \<le> length (arrays h (s_base val))"
    using assms(5) by (auto simp: valid_slice_def)
  have arr: "arrays h1 (nxt h) = slice_bytes h val"
    using inserted_heap(3)[OF v, of "evicted_down_to n c" key ttl now] by (simp add: r)
  have len: "length (slice_bytes h val) = unat (s_len val)"
    using v(2) by (simp add: slice_bytes_def)
  have b1: "stored_value c1 h1 key = Some (slice_bytes h val)"
    using m arr len by (simp add: stored_value_def slice_bytes_def)
  have b2: "stored_value c1 h2 key = Some (slice_bytes h val)" if "slice_write h1 s i b = Some h2" for h2
  proof -
    from that assms(6) have "arrays h2 (nxt h) = arrays h1 (nxt h)"
      by (auto simp: slice_write_def split: if_splits)
    then show ?thesis using m arr len by (simp add: stored_value_def slice_bytes_def)
  qed
  have g: "\<exists>c'. get c k now = (c', data e, True) \<and> map_of (lru c') k = Some e \<and>
               (\<forall>h2. valid_slice h (data e) \<and> slice_write h (data e) i b = Some h2 \<longrightarrow>
                  stored_value c' h2 k = Some ((slice_bytes h (data e))[i := b]))"
    if "map_of (lru c) k = Some e" "\<not> now > expiryTime e" for k e
  proof -
    let ?c' = "c\<lparr>requests := requests c + 1,
        lru := (k, e) # filter (\<lambda>p. fst p \<noteq> k) (lru c),
        hits := hits c + 1\<rparr>"
    have 1: "get c k now = (?c', data e, True)" using that by (rule get_hit)
    have 2: "map_of (lru ?c') k = Some e" by simp
    have 3: "stored_value ?c' h2 k = Some ((slice_bytes h (data e))[i := b])"
      if "valid_slice h (data e)" "slice_write h (data e) i b = Some h2" for h2
      using that slice_bytes_write[of i "data e" h b]
      by (auto simp: stored_value_def slice_write_def valid_slice_def split: if_splits)
    from 1 2 3 show ?thesis by blast
  qed
  from st r b1 b2 g show ?thesis by (simp (no_asm_simp))
qed

theorem set_copies_get_shares_witness:
  "''k'' \<notin> set (keys_of ex_cache) \<and> accounted ex_cache \<and>
   maxItemSizeBytes ex_cache \<le> maxSizeBytes ex_cache \<and> s_len ex_val \<le> maxItemSizeBytes ex_cache \<and>
   valid_slice ex_heap ex_val \<and> s_base ex_val < nxt ex_heap \<and>
   map_of (lru ex_cache) ''a'' = Some (ex_entry 5 4 100) \<and> \<not> 6 > expiryTime (ex_entry 5 4 100) \<and>
   valid_slice ex_heap (data (ex_entry 5 4 100)) \<and>
   (\<exists>c1 h1 h2. set_c ex_cache ex_heap ''k'' ex_val 95 6 = Some (c1, h1) \<and>
      stored_value c1 h1 ''k'' = Some (slice_bytes ex_heap ex_val) \<and>
      slice_write h1 ex_val 0 99 = Some h2 \<and>
      stored_value c1 h2 ''k'' = Some (slice_bytes ex_heap ex_val)) \<and>
   (\<exists>c' h2. get ex_cache ''a'' 6 = (c', data (ex_entry 5 4 100), True) \<and>
      map_of (lru c') ''a'' = Some (ex_entry 5 4 100) \<and>
      slice_write ex_heap (data (ex_entry 5 4 100)) 0 99 = Some h2 \<and>
      stored_value c' h2 ''a'' = Some ((slice_bytes ex_heap (data (ex_entry 5 4 100)))[0 := 99]))"
proof -
  have h1: "''k'' \<notin> set (keys_of ex_cache)" by (simp add: ex_cache_def keys_of_def)
  have h2: "accounted ex_cache" by (simp add: ex_cache_def accounted_def ex_entry_def)
  have h3: "maxItemSizeBytes ex_cache \<le> maxSizeBytes ex_cache" by (simp add: ex_cache_def)
  have h4: "s_len ex_val \<le> maxItemSizeBytes ex_cache" by (simp add: ex_cache_def ex_val_def)
  have h5: "valid_slice ex_heap ex_val" by (simp add: valid_slice_def ex_heap_def ex_val_def)
  have h6: "s_base ex_val < nxt ex_heap" by (simp add: ex_heap_def ex_val_def)
  have h7: "map_of (lru ex_cache) ''a'' = Some (ex_entry 5 4 100)" by (simp add: ex_cache_def)
  have h8: "\<not> 6 > expiryTime (ex_entry 5 4 100)" by (simp add: ex_entry_def)
  have h9: "valid_slice ex_heap (data (ex_entry 5 4 100))"
    by (simp add: valid_slice_def ex_heap_def ex_entry_def)
  note t = set_copies_get_shares[OF h1 h2 h3 h4 h5 h6, of 95 6 0 99]
  from t obtain c1 h1' where s: "set_c ex_cache ex_heap ''k'' ex_val 95 6 = Some (c1, h1')"
    "stored_value c1 h1' ''k'' = Some (slice_bytes ex_heap ex_val)"
    "\<forall>h2. slice_write h1' ex_val 0 99 = Some h2 \<longrightarrow>
        stored_value c1 h2 ''k'' = Some (slice_bytes ex_heap ex_val)"
    by blast
  obtain h2' where w: "slice_write h1' ex_val 0 99 = Some h2'"
    by (simp add: slice_write_def ex_val_def)
  with s have p1: "\<exists>c1 h1 h2. set_c ex_cache ex_heap ''k'' ex_val 95 6 = Some (c1, h1) \<and>
      stored_value c1 h1 ''k'' = Some (slice_bytes ex_heap ex_val) \<and>
      slice_write h1 ex_val 0 99 = Some h2 \<and>
      stored_value c1 h2 ''k'' = Some (slice_bytes ex_heap ex_val)"
    by blast
  from t h7 h8 obtain c' where g: "get ex_cache ''a'' 6 = (c', data (ex_entry 5 4 100), True)"
    "map_of (lru c') ''a'' = Some (ex_entry 5 4 100)"
    "\<forall>h2. valid_slice ex_heap (data (ex_entry 5 4 100)) \<and>
          slice_write ex_heap (data (ex_entry 5 4 100)) 0 99 = Some h2 \<longrightarrow>
          stored_value c' h2 ''a'' = Some ((slice_bytes ex_heap (data (ex_entry 5 4 100)))[0 := 99])"
    by blast
  obtain h3' where w2: "slice_write ex_heap (data (ex_entry 5 4 100)) 0 99 = Some h3'"
    by (simp add: slice_write_def ex_entry_def)
  with g h9 have p2: "\<exists>c' h2. get ex_cache ''a'' 6 = (c', data (ex_entry 5 4 100), True) \<and>
      map_of (lru c') ''a'' = Some (ex_entry 5 4 100) \<and>
      slice_write ex_heap (data (ex_entry 5 4 100)) 0 99 = Some h2 \<and>
      stored_value c' h2 ''a'' = Some ((slice_bytes ex_heap (data (ex_entry 5 4 100)))[0 := 99])"
    by blast
  from h1 h2 h3 h4 h5 h6 h7 h8 h9 p1 p2 show ?thesis by blast
qed

section \<open>The order of eviction\<close>

lemma ensureFits_fits:
  assumes "accounted c" "sz \<le> maxItemSizeBytes c" "maxItemSizeBytes c \<le> maxSizeBytes c"
  shows "\<exists>n\<le>length (lru c).
           ensureFits c sz = Some (evicted_down_to n c, True) \<and>
           lru (evicted_down_to n c) = take n (lru c) \<and>
           \<not> curSize (evicted_down_to n c) + sz > maxSizeBytes c \<and>
           (\<forall>m. n < m \<and> m \<le> length (lru c) \<longrightarrow>
                curSize (evicted_down_to m c) + sz > maxSizeBytes c)"
proof -
  from assms(2,3) have "sz \<le> maxSizeBytes c" by simp
  from ensureFits_loop_result[OF assms(1) this]
  obtain n where n: "n \<le> length (lru c)"
    "ensureFits_loop c sz = Some (evicted_down_to n c)"
    "\<not> curSize (evicted_down_to n c) + sz > maxSizeBytes c"
    "\<forall>m. n < m \<and> m \<le> length (lru c) \<longrightarrow> curSize (evicted_down_to m c) + sz > maxSizeBytes c"
    by blast
  have "ensureFits c sz = Some (evicted_down_to n c, True)"
    using assms(2) n(2) by (simp add: ensureFits_def not_less[symmetric])
  with n show ?thesis by (intro exI[of _ n]) simp
qed

lemma inserted_lru:
  assumes "inserted c h key val ttl now = (c', h')"
  shows "lru c' = (key, \<lparr>data = \<lparr>s_base = nxt h, s_off = 0, s_len = s_len val\<rparr>,
                          expiryTime = now + ttl\<rparr>)
                  # filter (\<lambda>p. fst p \<noteq> key) (lru c)"
proof -
  have "lru (fst (inserted c h key val ttl now)) =
          (key, \<lparr>data = \<lparr>s_base = nxt h, s_off = 0, s_len = s_len val\<rparr>,
                          expiryTime = now + ttl\<rparr>)
                  # filter (\<lambda>p. fst p \<noteq> key) (lru c)"
    by simp
  then show ?thesis unfolding assms by simp
qed

lemma read_oldest_then_insert:
  assumes d: "distinct (keys_of c)" and a: "accounted c"
    and cs: "curSize c \<le> maxSizeBytes c" and mx: "maxItemSizeBytes c \<le> maxSizeBytes c"
    and l: "lru c = xs @ [(k2, e2), (k1, e1)]"
    and live: "now1 \<le> expiryTime e1"
    and new: "k3 \<notin> set (keys_of c)"
    and item: "s_len val \<le> maxItemSizeBytes c"
    and full: "curSize c + s_len val > maxSizeBytes c"
    and room: "s_len val \<le> s_len (data e2)"
  shows "\<exists>c1 c2 h2. get c k1 now1 = (c1, data e1, True) \<and>
           set_c c1 h k3 val ttl now2 = Some (c2, h2) \<and>
           keys_of c2 = k3 # k1 # map fst xs"
proof -
  have d': "distinct (map fst (lru c))" using d by (simp add: keys_of_def)
  have m1: "map_of (lru c) k1 = Some e1"
    using d' by (intro map_of_is_SomeI) (simp_all add: l)
  let ?l1 = "(k1, e1) # xs @ [(k2, e2)]"
  have f1: "filter (\<lambda>p. fst p \<noteq> k1) (lru c) = xs @ [(k2, e2)]"
    using d' unfolding l by (auto simp: filter_id_conv)
  let ?c1 = "c\<lparr>requests := requests c + 1, lru := ?l1, hits := hits c + 1\<rparr>"
  have g: "get c k1 now1 = (?c1, data e1, True)"
    using get_hit[OF m1, of now1] live by (simp add: f1)
  have a1: "accounted ?c1"
    using a by (simp add: accounted_def l)
  have mx1: "maxItemSizeBytes ?c1 \<le> maxSizeBytes ?c1" using mx by simp
  have none: "map_of (lru ?c1) k3 = None"
    using new by (auto simp: keys_of_def l map_of_eq_None_iff)
  have item1: "s_len val \<le> maxItemSizeBytes ?c1" using item by simp
  from set_c_absent_fits[OF none a1 item1 mx1, of h ttl now2]
  obtain n where n: "n \<le> length ?l1"
    "set_c ?c1 h k3 val ttl now2 = Some (inserted (evicted_down_to n ?c1) h k3 val ttl now2)"
    "\<not> curSize (evicted_down_to n ?c1) + s_len val > maxSizeBytes c"
    "\<forall>m. n < m \<and> m \<le> length ?l1 \<longrightarrow> curSize (evicted_down_to m ?c1) + s_len val > maxSizeBytes c"
    by auto
  have all: "evicted_down_to (length ?l1) ?c1 = ?c1"
    using evicted_down_to_all[of ?c1] by simp
  have "n \<noteq> length ?l1" using n(3) full all by auto
  with n(1) have nlt: "n < length ?l1" by simp
  have one: "curSize (evicted_down_to (Suc (length xs)) ?c1) = curSize c - s_len (data e2)"
    by (simp add: evicted_down_to_def)
  have s2: "unat (s_len (data e2)) \<le> unat (curSize c)"
    using a by (simp add: accounted_def l)
  then have "s_len (data e2) \<le> curSize c" by (simp add: word_le_nat_alt)
  then have u: "unat (curSize c - s_len (data e2)) = unat (curSize c) - unat (s_len (data e2))"
    by (rule unat_sub)
  have r: "unat (s_len val) \<le> unat (s_len (data e2))" using room by (simp add: word_le_nat_alt)
  have "unat (curSize c - s_len (data e2)) + unat (s_len val) \<le> unat (curSize c)"
    using u r s2 by simp
  moreover from this have "unat (curSize c - s_len (data e2)) + unat (s_len val) < 2 ^ LENGTH(64)"
    using unsigned_less[of "curSize c", where 'a = nat] by simp
  then have "unat (curSize c - s_len (data e2) + s_len val)
             = unat (curSize c - s_len (data e2)) + unat (s_len val)"
    by (simp only: unat_add_lem)
  ultimately have "curSize c - s_len (data e2) + s_len val \<le> curSize c"
    by (simp add: word_le_nat_alt)
  then have "curSize c - s_len (data e2) + s_len val \<le> maxSizeBytes c" using cs by (rule order_trans)
  then have stop: "\<not> curSize (evicted_down_to (Suc (length xs)) ?c1) + s_len val > maxSizeBytes c"
    using one by (simp add: not_less)
  have "\<not> n < Suc (length xs)" using n(4) stop by auto
  with nlt have neq: "n = Suc (length xs)" by simp
  have k3: "k3 \<noteq> k1" "k3 \<notin> fst ` set xs" using new by (auto simp: keys_of_def l)
  then have f3: "filter (\<lambda>p. fst p \<noteq> k3) xs = xs" by (auto simp: filter_id_conv)
  obtain c2 h2 where ins: "inserted (evicted_down_to n ?c1) h k3 val ttl now2 = (c2, h2)"
    by (cases "inserted (evicted_down_to n ?c1) h k3 val ttl now2")
  have "lru c2 = (k3, \<lparr>data = \<lparr>s_base = nxt h, s_off = 0, s_len = s_len val\<rparr>,
                          expiryTime = now2 + ttl\<rparr>)
                  # filter (\<lambda>p. fst p \<noteq> k3) (take n ?l1)"
    using inserted_lru[OF ins] by simp
  then have "keys_of c2 = k3 # k1 # map fst xs"
    using k3(1) f3 by (simp add: neq keys_of_def)
  with g n(2) ins show ?thesis by (intro exI[of _ ?c1] exI[of _ c2] exI[of _ h2]) simp
qed

lemma set_c_with_room:
  assumes "map_of (lru c) key = None" "accounted c"
    "s_len val \<le> maxItemSizeBytes c" "maxItemSizeBytes c \<le> maxSizeBytes c"
    "unat (curSize c) + unat (s_len val) \<le> unat (maxSizeBytes c)"
  shows "set_c c h key val ttl now = Some (inserted c h key val ttl now)"
proof -
  from set_c_absent_fits[OF assms(1-4), of h ttl now]
  obtain n where n: "n \<le> length (lru c)"
    "set_c c h key val ttl now = Some (inserted (evicted_down_to n c) h key val ttl now)"
    "\<forall>m. n < m \<and> m \<le> length (lru c) \<longrightarrow> curSize (evicted_down_to m c) + s_len val > maxSizeBytes c"
    by blast
  have "unat (curSize c) + unat (s_len val) < 2 ^ LENGTH(64)"
    using assms(5) unsigned_less[of "maxSizeBytes c", where 'a = nat] by simp
  then have "unat (curSize c + s_len val) = unat (curSize c) + unat (s_len val)"
    by (simp only: unat_add_lem)
  with assms(5) have fits: "\<not> curSize c + s_len val > maxSizeBytes c"
    by (simp add: word_less_nat_alt)
  have "n = length (lru c)"
  proof (rule ccontr)
    assume "n \<noteq> length (lru c)"
    with n(1) have "n < length (lru c)" by simp
    with n(3) have "curSize (evicted_down_to (length (lru c)) c) + s_len val > maxSizeBytes c"
      by simp
    with fits show False by (simp add: evicted_down_to_all)
  qed
  with n(2) show ?thesis by (simp add: evicted_down_to_all)
qed

lemma Store_with_room:
  assumes "distinct (map (\<lambda>kv. fst (fst kv)) kvs)"
    and "set (map (\<lambda>kv. fst (fst kv)) kvs) \<inter> set (keys_of c) = {}"
    and "distinct (keys_of c)" and "accounted c"
    and "\<forall>kv\<in>set kvs. s_len (snd (fst kv)) \<le> maxItemSizeBytes c"
    and "maxItemSizeBytes c \<le> maxSizeBytes c"
    and "unat (curSize c) + kv_lens kvs \<le> unat (maxSizeBytes c)"
  shows "\<exists>c' h'. Store c h kvs ttl = Some (c', h') \<and>
           summary (lru c') =
             rev (map (\<lambda>kv. (fst (fst kv), s_len (snd (fst kv)), snd kv + ttl)) kvs) @ summary (lru c) \<and>
           distinct (keys_of c') \<and> accounted c' \<and>
           maxSizeBytes c' = maxSizeBytes c \<and> maxItemSizeBytes c' = maxItemSizeBytes c"
  using assms
proof (induction kvs arbitrary: c h)
  case Nil
  then show ?case by simp
next
  case (Cons x kvs)
  obtain key val now where x: "x = ((key, val), now)" by (cases x) auto
  have absent: "key \<notin> set (keys_of c)" using Cons.prems(2) x by auto
  then have none: "map_of (lru c) key = None" by (rule keys_absent)
  have item: "s_len val \<le> maxItemSizeBytes c" using Cons.prems(5) x by simp
  have room: "unat (curSize c) + unat (s_len val) \<le> unat (maxSizeBytes c)"
    using Cons.prems(7) x by (simp add: kv_lens_def)
  have s: "set_c c h key val ttl now = Some (inserted c h key val ttl now)"
    using none Cons.prems(4) item Cons.prems(6) room by (rule set_c_with_room)
  obtain c1 h1 where r: "inserted c h key val ttl now = (c1, h1)"
    by (cases "inserted c h key val ttl now")
  have f: "filter (\<lambda>p. fst p \<noteq> key) (lru c) = lru c"
    using absent by (auto simp: filter_id_conv keys_of_def)
  have l1: "lru c1 = (key, \<lparr>data = \<lparr>s_base = nxt h, s_off = 0, s_len = s_len val\<rparr>,
                          expiryTime = now + ttl\<rparr>) # lru c"
    using inserted_lru[OF r] f by simp
  have cs1: "curSize c1 = curSize c + s_len val"
    and mx1: "maxSizeBytes c1 = maxSizeBytes c" "maxItemSizeBytes c1 = maxItemSizeBytes c"
    using arg_cong[OF r, of fst] inserted_fields(2,3,4)[of c h key val ttl now] by simp_all
  have "unat (curSize c) + unat (s_len val) < 2 ^ LENGTH(64)"
    using room unsigned_less[of "maxSizeBytes c", where 'a = nat] by simp
  then have u: "unat (curSize c + s_len val) = unat (curSize c) + unat (s_len val)"
    by (simp only: unat_add_lem)
  have a1: "accounted c1" using Cons.prems(4) u by (simp add: accounted_def l1 cs1)
  have d1: "distinct (keys_of c1)" using Cons.prems(3) absent by (simp add: keys_of_def l1)
  have p1: "distinct (map (\<lambda>kv. fst (fst kv)) kvs)" using Cons.prems(1) by simp
  have p2: "set (map (\<lambda>kv. fst (fst kv)) kvs) \<inter> set (keys_of c1) = {}"
    using Cons.prems(1,2) x by (auto simp: keys_of_def l1)
  have p5: "\<forall>kv\<in>set kvs. s_len (snd (fst kv)) \<le> maxItemSizeBytes c1"
    using Cons.prems(5) mx1 by simp
  have p6: "maxItemSizeBytes c1 \<le> maxSizeBytes c1" using Cons.prems(6) mx1 by simp
  have p7: "unat (curSize c1) + kv_lens kvs \<le> unat (maxSizeBytes c1)"
    using Cons.prems(7) x u by (simp add: kv_lens_def cs1 mx1)
  from Cons.IH[OF p1 p2 d1 a1 p5 p6 p7, of h1]
  obtain c' h' where st: "Store c1 h1 kvs ttl = Some (c', h')"
    "summary (lru c') =
       rev (map (\<lambda>kv. (fst (fst kv), s_len (snd (fst kv)), snd kv + ttl)) kvs) @ summary (lru c1)"
    "distinct (keys_of c')" "accounted c'"
    "maxSizeBytes c' = maxSizeBytes c1" "maxItemSizeBytes c' = maxItemSizeBytes c1"
    by blast
  have "Store c h (x # kvs) ttl = Some (c', h')" using s r st(1) x by simp
  moreover have "summary (lru c') =
      rev (map (\<lambda>kv. (fst (fst kv), s_len (snd (fst kv)), snd kv + ttl)) (x # kvs)) @ summary (lru c)"
    using st(2) x by (simp add: summary_def l1)
  ultimately show ?case using st(3,4,5,6) mx1 by simp
qed


lemma kv_lens_equal:
  "\<forall>kv\<in>set kvs. s_len (snd (fst kv)) = s \<Longrightarrow> kv_lens kvs = length kvs * unat s"
  by (induction kvs) (simp_all add: kv_lens_def)

lemma stored_bytes_summary:
  "stored_bytes l = sum_list (map (\<lambda>t. unat (fst (snd t))) (summary l))"
  by (simp add: stored_bytes_def summary_def comp_def)

lemma summary_two_oldest:
  assumes "summary l = A @ [(k2, n2, x2), (k1, n1, x1)]"
  shows "\<exists>xs e2 e1. l = xs @ [(k2, e2), (k1, e1)] \<and> summary xs = A \<and>
           s_len (data e2) = n2 \<and> expiryTime e1 = x1"
proof -
  from assms obtain xs ys where l: "l = xs @ ys" "summary xs = A"
    "summary ys = [(k2, n2, x2), (k1, n1, x1)]"
    unfolding summary_def by (auto simp: map_eq_append_conv)
  from l(3) obtain p q where ys: "ys = [p, q]"
    unfolding summary_def by (auto simp: map_eq_Cons_conv)
  with l(3) have "fst p = k2" "s_len (data (snd p)) = n2" "fst q = k1" "expiryTime (snd q) = x1"
    by (simp_all add: summary_def)
  then have "l = xs @ [(k2, snd p), (k1, snd q)]" "s_len (data (snd p)) = n2" "expiryTime (snd q) = x1"
    using l(1) ys by (simp_all add: prod_eq_iff)
  with l(2) show ?thesis by blast
qed

lemma fill_read_insert:
  assumes new: "NewInMemoryCacheWithConfig nm config = Inr c0"
    and kvs: "kvs = ((k1, v1), t1) # ((k2, v2), t2) # rest"
    and dk: "distinct (map (\<lambda>kv. fst (fst kv)) kvs)"
    and k3: "k3 \<notin> set (map (\<lambda>kv. fst (fst kv)) kvs)"
    and sizes: "\<forall>kv\<in>set kvs. s_len (snd (fst kv)) = s"
    and sval: "s_len val = s" and pos: "0 < s" and item: "s \<le> MaxItemSize config"
    and budget: "unat (MaxSize config) = length kvs * unat s"
    and nowrap: "(length kvs + 1) * unat s < 2 ^ 64"
    and live: "now1 \<le> t1 + ttl"
  shows "\<exists>c1 h1 c2 c3 h3 b. Store c0 h kvs ttl = Some (c1, h1) \<and>
           get c1 k1 now1 = (c2, b, True) \<and>
           set_c c2 h1 k3 val ttl3 now3 = Some (c3, h3) \<and>
           keys_of c3 = k3 # k1 # rev (map (\<lambda>kv. fst (fst kv)) rest)"
proof -
  from new have c0: "lru c0 = []" "curSize c0 = 0" "maxSizeBytes c0 = MaxSize config"
    "maxItemSizeBytes c0 = MaxItemSize config" "MaxItemSize config \<le> MaxSize config"
    by (auto simp: NewInMemoryCacheWithConfig_def split: if_splits)
  have lens: "kv_lens kvs = length kvs * unat s" using sizes by (rule kv_lens_equal)
  have q1: "set (map (\<lambda>kv. fst (fst kv)) kvs) \<inter> set (keys_of c0) = {}"
    and q2: "distinct (keys_of c0)" and q3: "accounted c0"
    by (simp_all add: keys_of_def accounted_def c0)
  have q4: "\<forall>kv\<in>set kvs. s_len (snd (fst kv)) \<le> maxItemSizeBytes c0"
    using sizes item by (simp add: c0)
  have q5: "maxItemSizeBytes c0 \<le> maxSizeBytes c0" by (simp add: c0)
  have q6: "unat (curSize c0) + kv_lens kvs \<le> unat (maxSizeBytes c0)"
    by (simp add: c0 lens budget)
  from Store_with_room[OF dk q1 q2 q3 q4 q5 q6, of h ttl]
  obtain c1 h1 where st: "Store c0 h kvs ttl = Some (c1, h1)"
    "summary (lru c1) =
       rev (map (\<lambda>kv. (fst (fst kv), s_len (snd (fst kv)), snd kv + ttl)) kvs) @ summary (lru c0)"
    "distinct (keys_of c1)" "accounted c1"
    "maxSizeBytes c1 = maxSizeBytes c0" "maxItemSizeBytes c1 = maxItemSizeBytes c0"
    by blast
  let ?A = "rev (map (\<lambda>kv. (fst (fst kv), s_len (snd (fst kv)), snd kv + ttl)) rest)"
  have sm: "summary (lru c1) = ?A @ [(k2, s_len v2, t2 + ttl), (k1, s_len v1, t1 + ttl)]"
    using st(2) by (simp add: kvs c0 summary_def)
  from summary_two_oldest[OF sm]
  obtain xs e2 e1 where l: "lru c1 = xs @ [(k2, e2), (k1, e1)]" "summary xs = ?A"
    "s_len (data e2) = s_len v2" "expiryTime e1 = t1 + ttl"
    by blast
  have v2: "s_len v2 = s" using sizes by (simp add: kvs)
  have "stored_bytes (lru c1) = kv_lens kvs"
    unfolding stored_bytes_summary st(2)
    by (simp add: kv_lens_def c0 summary_def comp_def rev_map[symmetric] sum_list_rev)
  then have cur: "unat (curSize c1) = unat (maxSizeBytes c1)"
    using st(4,5) by (simp add: accounted_def lens budget c0)
  then have cs: "curSize c1 \<le> maxSizeBytes c1" by (simp add: word_le_nat_alt)
  have mx: "maxItemSizeBytes c1 \<le> maxSizeBytes c1" using st(5,6) q5 by simp
  have "unat (curSize c1) + unat (s_len val) < 2 ^ LENGTH(64)"
    using nowrap cur st(5) by (simp add: c0 budget sval)
  then have "unat (curSize c1 + s_len val) = unat (curSize c1) + unat (s_len val)"
    by (simp only: unat_add_lem)
  moreover have "0 < unat s" using pos by (simp add: word_less_nat_alt)
  ultimately have full: "curSize c1 + s_len val > maxSizeBytes c1"
    using cur by (simp add: word_less_nat_alt sval)
  have live1: "now1 \<le> expiryTime e1" using live l(4) by simp
  have keys1: "keys_of c1 = map fst (summary (lru c1))"
    by (simp add: keys_of_def summary_def comp_def)
  have new3: "k3 \<notin> set (keys_of c1)"
    using k3 unfolding keys1 st(2) by (force simp: c0 summary_def)
  have item3: "s_len val \<le> maxItemSizeBytes c1" using item sval st(6) by (simp add: c0)
  have room: "s_len val \<le> s_len (data e2)" using l(3) v2 sval by simp
  from read_oldest_then_insert[OF st(3,4) cs mx l(1) live1 new3 item3 full room, of h1 ttl3 now3]
  obtain c2 c3 h3 where r: "get c1 k1 now1 = (c2, data e1, True)"
    "set_c c2 h1 k3 val ttl3 now3 = Some (c3, h3)"
    "keys_of c3 = k3 # k1 # map fst xs"
    by blast
  have "map fst xs = map fst (summary xs)" by (simp add: summary_def comp_def)
  also have "\<dots> = rev (map (\<lambda>kv. fst (fst kv)) rest)"
    unfolding l(2) by (simp add: rev_map comp_def)
  finally have "keys_of c3 = k3 # k1 # rev (map (\<lambda>kv. fst (fst kv)) rest)" using r(3) by simp
  with st(1) r(1,2) show ?thesis by blast
qed

text \<open>
  C2.
  \<^item> In a state whose bytes are accounted for, of a cache whose item limit is at most its
    budget, and for an item within the item limit, \<^verbatim>\<open>ensureFits\<close> evicts from the old
    end of the recency order, one entry at a time: it keeps the \<open>n\<close> most recently
    used entries, the item fits beside them, and it did not fit beside any larger
    number \<open>m\<close> of them, so the size test was made after each removal and no entry was
    evicted while an older one remained or needlessly.
  \<^item> A \<^verbatim>\<open>get\<close> that finds its key unexpired moves the key's pair to the front.
  \<^item> Let a new cache have a budget for exactly \<open>N \<ge> 2\<close> items of \<open>s\<close> bytes, let \<^verbatim>\<open>Store\<close>
    fill it with \<open>N\<close> such items under distinct keys, the first of them \<open>ka\<close>, the
    second \<open>kb\<close>, let \<open>ka\<close> be read before it expires, and let one more item of \<open>s\<close>
    bytes be stored under a new key \<open>kn\<close>. Then the map holds \<open>kn\<close>, \<open>ka\<close> and the
    items after the second, most recent first: \<open>kb\<close> was evicted, not \<open>ka\<close>.
\<close>

theorem eviction_is_least_recently_used:
  "(accounted c \<and> maxItemSizeBytes c \<le> maxSizeBytes c \<and> sz \<le> maxItemSizeBytes c \<longrightarrow>
      (\<exists>n\<le>length (lru c).
         ensureFits c sz = Some (evicted_down_to n c, True) \<and>
         lru (evicted_down_to n c) = take n (lru c) \<and>
         \<not> curSize (evicted_down_to n c) + sz > maxSizeBytes c \<and>
         (\<forall>m. n < m \<and> m \<le> length (lru c) \<longrightarrow>
              curSize (evicted_down_to m c) + sz > maxSizeBytes c))) \<and>
   (map_of (lru c) k1 = Some e1 \<and> now1 \<le> expiryTime e1 \<longrightarrow>
      (\<exists>c1. get c k1 now1 = (c1, data e1, True) \<and>
         lru c1 = (k1, e1) # filter (\<lambda>p. fst p \<noteq> k1) (lru c))) \<and>
   (NewInMemoryCacheWithConfig nm config = Inr c0 \<and>
    kvs = ((ka, va), ta) # ((kb, vb), tb) # rest \<and>
    distinct (map (\<lambda>kv. fst (fst kv)) kvs) \<and> kn \<notin> set (map (\<lambda>kv. fst (fst kv)) kvs) \<and>
    list_all (\<lambda>kv. s_len (snd (fst kv)) = s) kvs \<and> s_len val = s \<and>
    0 < s \<and> s \<le> MaxItemSize config \<and>
    unat (MaxSize config) = length kvs * unat s \<and> (length kvs + 1) * unat s < 2 ^ 64 \<and>
    now_r \<le> ta + ttl \<longrightarrow>
      (\<exists>c1 h1 c2 c3 h3 b.
         Store c0 h kvs ttl = Some (c1, h1) \<and>
         get c1 ka now_r = (c2, b, True) \<and>
         set_c c2 h1 kn val ttl_n now_n = Some (c3, h3) \<and>
         keys_of c3 = kn # ka # rev (map (\<lambda>kv. fst (fst kv)) rest)))"
proof -
  have 1: "\<exists>n\<le>length (lru c).
             ensureFits c sz = Some (evicted_down_to n c, True) \<and>
             lru (evicted_down_to n c) = take n (lru c) \<and>
             \<not> curSize (evicted_down_to n c) + sz > maxSizeBytes c \<and>
             (\<forall>m. n < m \<and> m \<le> length (lru c) \<longrightarrow>
                  curSize (evicted_down_to m c) + sz > maxSizeBytes c)"
    if "accounted c" "maxItemSizeBytes c \<le> maxSizeBytes c" "sz \<le> maxItemSizeBytes c"
    using that(1,3,2) by (rule ensureFits_fits)
  have 2: "\<exists>c1. get c k1 now1 = (c1, data e1, True) \<and>
             lru c1 = (k1, e1) # filter (\<lambda>p. fst p \<noteq> k1) (lru c)"
    if "map_of (lru c) k1 = Some e1" "now1 \<le> expiryTime e1"
    using get_hit[OF that(1), of now1] that(2) by simp
  have 3: "\<exists>c1 h1 c2 c3 h3 b.
             Store c0 h kvs ttl = Some (c1, h1) \<and>
             get c1 ka now_r = (c2, b, True) \<and>
             set_c c2 h1 kn val ttl_n now_n = Some (c3, h3) \<and>
             keys_of c3 = kn # ka # rev (map (\<lambda>kv. fst (fst kv)) rest)"
    if "NewInMemoryCacheWithConfig nm config = Inr c0"
      "kvs = ((ka, va), ta) # ((kb, vb), tb) # rest"
      "distinct (map (\<lambda>kv. fst (fst kv)) kvs)" "kn \<notin> set (map (\<lambda>kv. fst (fst kv)) kvs)"
      "list_all (\<lambda>kv. s_len (snd (fst kv)) = s) kvs" "s_len val = s"
      "0 < s" "s \<le> MaxItemSize config"
      "unat (MaxSize config) = length kvs * unat s" "(length kvs + 1) * unat s < 2 ^ 64"
      "now_r \<le> ta + ttl"
  proof -
    from that(5) have "\<forall>kv\<in>set kvs. s_len (snd (fst kv)) = s" by (simp add: list_all_iff)
    from fill_read_insert[OF that(1-4) this that(6-11)] show ?thesis .
  qed
  from 1 2 3 show ?thesis by blast
qed

theorem eviction_is_least_recently_used_witness:
  "accounted ex_cache \<and> maxItemSizeBytes ex_cache \<le> maxSizeBytes ex_cache \<and>
   (3::u64) \<le> maxItemSizeBytes ex_cache \<and>
   map_of (lru ex_cache) ''a'' = Some (ex_entry 5 4 100) \<and> 6 \<le> expiryTime (ex_entry 5 4 100) \<and>
   NewInMemoryCacheWithConfig ''c'' ex_config9 = Inr ex_new9 \<and>
   ex_kvs = ((''a'', ex_val), 5) # ((''b'', ex_val), 5) # [((''c'', ex_val), 6)] \<and>
   distinct (map (\<lambda>kv. fst (fst kv)) ex_kvs) \<and> ''d'' \<notin> set (map (\<lambda>kv. fst (fst kv)) ex_kvs) \<and>
   list_all (\<lambda>kv. s_len (snd (fst kv)) = 3) ex_kvs \<and> s_len ex_val = 3 \<and>
   (0::u64) < 3 \<and> (3::u64) \<le> MaxItemSize ex_config9 \<and>
   unat (MaxSize ex_config9) = length ex_kvs * unat (3::u64) \<and>
   (length ex_kvs + 1) * unat (3::u64) < 2 ^ 64 \<and> (7::int) \<le> 5 + 95 \<and>
   (\<exists>n. n \<le> length (lru ex_cache) \<and>
      ensureFits ex_cache 3 = Some (evicted_down_to n ex_cache, True) \<and>
      lru (evicted_down_to n ex_cache) = take n (lru ex_cache) \<and>
      \<not> curSize (evicted_down_to n ex_cache) + 3 > maxSizeBytes ex_cache) \<and>
   (\<exists>c1. get ex_cache ''a'' 6 = (c1, data (ex_entry 5 4 100), True) \<and>
      lru c1 = (''a'', ex_entry 5 4 100) # filter (\<lambda>p. fst p \<noteq> ''a'') (lru ex_cache)) \<and>
   (\<exists>c1 h1 c2 c3 h3 b.
      Store ex_new9 ex_heap0 ex_kvs 95 = Some (c1, h1) \<and>
      get c1 ''a'' 7 = (c2, b, True) \<and>
      set_c c2 h1 ''d'' ex_val 95 8 = Some (c3, h3) \<and>
      keys_of c3 = [''d'', ''a'', ''c''])"
proof -
  have a1: "accounted ex_cache" by (simp add: ex_cache_def accounted_def ex_entry_def)
  have a2: "maxItemSizeBytes ex_cache \<le> maxSizeBytes ex_cache" by (simp add: ex_cache_def)
  have a3: "(3::u64) \<le> maxItemSizeBytes ex_cache" by (simp add: ex_cache_def)
  have b1: "map_of (lru ex_cache) ''a'' = Some (ex_entry 5 4 100)" by (simp add: ex_cache_def)
  have b2: "6 \<le> expiryTime (ex_entry 5 4 100)" by (simp add: ex_entry_def)
  have d1: "NewInMemoryCacheWithConfig ''c'' ex_config9 = Inr ex_new9"
    by (simp add: NewInMemoryCacheWithConfig_def ex_config9_def ex_new9_def)
  have d2: "ex_kvs = ((''a'', ex_val), 5) # ((''b'', ex_val), 5) # [((''c'', ex_val), 6)]"
    by (simp add: ex_kvs_def)
  have d3: "distinct (map (\<lambda>kv. fst (fst kv)) ex_kvs)" by (simp add: ex_kvs_def)
  have d4: "''d'' \<notin> set (map (\<lambda>kv. fst (fst kv)) ex_kvs)" by (simp add: ex_kvs_def)
  have d5: "list_all (\<lambda>kv. s_len (snd (fst kv)) = 3) ex_kvs" by (simp add: ex_kvs_def ex_val_def)
  have d6: "s_len ex_val = 3" by (simp add: ex_val_def)
  have d7: "(0::u64) < 3" by simp
  have d8: "(3::u64) \<le> MaxItemSize ex_config9" by (simp add: ex_config9_def)
  have d9: "unat (MaxSize ex_config9) = length ex_kvs * unat (3::u64)"
    by (simp add: ex_config9_def ex_kvs_def)
  have d10: "(length ex_kvs + 1) * unat (3::u64) < 2 ^ 64" by (simp add: ex_kvs_def)
  have d11: "(7::int) \<le> 5 + 95" by simp
  note t = eviction_is_least_recently_used[of ex_cache 3 "''a''" "ex_entry 5 4 100" 6
      "''c''" ex_config9 ex_new9 ex_kvs "''a''" ex_val 5 "''b''" ex_val 5 "[((''c'', ex_val), 6)]"
      "''d''" 3 ex_val 7 95 ex_heap0 95 8]
  from t[THEN conjunct1, THEN mp, OF conjI[OF a1 conjI[OF a2 a3]]]
  have p1: "\<exists>n. n \<le> length (lru ex_cache) \<and>
      ensureFits ex_cache 3 = Some (evicted_down_to n ex_cache, True) \<and>
      lru (evicted_down_to n ex_cache) = take n (lru ex_cache) \<and>
      \<not> curSize (evicted_down_to n ex_cache) + 3 > maxSizeBytes ex_cache"
    by (elim exE conjE) (intro exI conjI; assumption)
  have p2: "\<exists>c1. get ex_cache ''a'' 6 = (c1, data (ex_entry 5 4 100), True) \<and>
      lru c1 = (''a'', ex_entry 5 4 100) # filter (\<lambda>p. fst p \<noteq> ''a'') (lru ex_cache)"
    by (rule t[THEN conjunct2, THEN conjunct1, THEN mp]) (intro conjI b1 b2)
  have p3: "\<exists>c1 h1 c2 c3 h3 b.
      Store ex_new9 ex_heap0 ex_kvs 95 = Some (c1, h1) \<and>
      get c1 ''a'' 7 = (c2, b, True) \<and>
      set_c c2 h1 ''d'' ex_val 95 8 = Some (c3, h3) \<and>
      keys_of c3 = [''d'', ''a'', ''c'']"
    using t[THEN conjunct2, THEN conjunct2, THEN mp, OF conjI[OF d1 conjI[OF d2 conjI[OF d3
      conjI[OF d4 conjI[OF d5 conjI[OF d6 conjI[OF d7 conjI[OF d8 conjI[OF d9
      conjI[OF d10 d11]]]]]]]]]]] by simp
  show ?thesis by (intro conjI a1 a2 a3 b1 b2 d1 d2 d3 d4 d5 d6 d7 d8 d9 d10 d11 p1 p2 p3)
qed

end
